theory Spec2Isabelle
  imports Main "HOL-Library.Word" "HOL-Library.Sublist"
begin

unbundle bit_operations_syntax

section \<open>Strings, numbers and arrays of the host language\<close>

text \<open>
  A JavaScript string is a sequence of 16-bit code units; \<open>length\<close>, the regular
  expressions and \<open>includes\<close> of the sources all count and compare code units.
  \<open>js\<close> embeds an ASCII literal.
\<close>

type_synonym jschar = "16 word"
type_synonym jsstring = "jschar list"

definition js :: "string \<Rightarrow> jsstring" where
  "js s = map (\<lambda>c. of_char c) s"

text \<open>The class \<open>\d\<close> of a regular expression: the ten ASCII digits only.\<close>

definition isDigit :: "jschar \<Rightarrow> bool" where
  "isDigit c = (0x30 \<le> c \<and> c \<le> 0x39)"

text \<open>
  The class \<open>\s\<close>, which is also what \<open>trim\<close> strips: WhiteSpace and
  LineTerminator of the language standard.
\<close>

definition isSpace :: "jschar \<Rightarrow> bool" where
  "isSpace c = (c \<in> {0x09, 0x0A, 0x0B, 0x0C, 0x0D, 0x20, 0xA0, 0x1680, 0x2028, 0x2029,
                      0x202F, 0x205F, 0x3000, 0xFEFF} \<or> (0x2000 \<le> c \<and> c \<le> 0x200A))"

text \<open>
  A number is an IEEE double. The only numbers computed by the code under study are
  non-negative integers read from digit strings, so a number is kept as the integer it
  holds, with the two values that are no integer.
\<close>

datatype number = Fin nat | Infinity | NaN

fun bitlen :: "nat \<Rightarrow> nat" where
  "bitlen n = (if n = 0 then 0 else Suc (bitlen (n div 2)))"

declare bitlen.simps [simp del]

text \<open>
  \<open>toNumber n\<close> is the double nearest to the integer \<open>n\<close> (round to nearest,
  ties to even, 53 significant bits), \<open>Infinity\<close> from \<open>2^1024 - 2^970\<close> on.
\<close>

definition toNumber :: "nat \<Rightarrow> number" where
  "toNumber n =
     (if bitlen n \<le> 53 then Fin n
      else let e = bitlen n - 53;
               q = n div 2 ^ e;
               r = n mod 2 ^ e;
               half = 2 ^ (e - 1);
               m = (if half < r \<or> (r = half \<and> odd q) then q + 1 else q);
               v = m * 2 ^ e
           in if 2 ^ 1024 \<le> v then Infinity else Fin v)"

definition digitVal :: "jschar \<Rightarrow> nat" where
  "digitVal c = unat c - 48"

definition digitsValue :: "jsstring \<Rightarrow> nat" where
  "digitsValue ds = foldl (\<lambda>a c. 10 * a + digitVal c) 0 ds"

text \<open>
  \<open>parseInt\<close> with no radix, on a string that starts with no white space, sign or
  \<open>0x\<close> (the code applies it to a match of \<open>\d+\<close> only): the leading decimal
  digits are read in radix 10 and the integer is converted to a number; with no leading
  digit the result is \<open>NaN\<close>. Beyond 20 digits the language standard also lets an
  implementation read the later digits as zeros; the exact value is taken here.
\<close>

definition parseInt :: "jsstring \<Rightarrow> number" where
  "parseInt s =
     (let ds = takeWhile isDigit s in if ds = [] then NaN else toNumber (digitsValue ds))"

text \<open>
  An array of booleans at run time: an index holds a boolean, the value
  \<open>undefined\<close>, or nothing at all (a hole, left by an assignment beyond the end).
\<close>

datatype slot = Val bool | Undefined | Hole

text \<open>Truthiness of an element, and \<open>!v\<close>.\<close>

fun truthy :: "slot \<Rightarrow> bool" where
  "truthy (Val b) = b"
| "truthy Undefined = False"
| "truthy Hole = False"

definition js_not :: "slot \<Rightarrow> bool" where
  "js_not v = (\<not> truthy v)"

text \<open>\<open>[...prev]\<close>: the copy reads every index, so a hole becomes \<open>undefined\<close>.\<close>

definition spread :: "slot list \<Rightarrow> slot list" where
  "spread xs = map (\<lambda>x. case x of Hole \<Rightarrow> Undefined | _ \<Rightarrow> x) xs"

text \<open>\<open>xs[i]\<close>: beyond the end, and at a hole, the read gives \<open>undefined\<close>.\<close>

definition array_get :: "slot list \<Rightarrow> nat \<Rightarrow> slot" where
  "array_get xs i = (if i < length xs then (case xs ! i of Hole \<Rightarrow> Undefined | v \<Rightarrow> v) else Undefined)"

text \<open>\<open>xs[i] = v\<close>: beyond the end the array grows, leaving holes below \<open>i\<close>.\<close>

definition array_set :: "slot list \<Rightarrow> nat \<Rightarrow> slot \<Rightarrow> slot list" where
  "array_set xs i v =
     (if i < length xs then xs[i := v] else xs @ replicate (i - length xs) Hole @ [v])"

text \<open>\<open>xs.every(p)\<close>: holes are not visited; the first failing element ends the scan.\<close>

fun every :: "(slot \<Rightarrow> bool) \<Rightarrow> slot list \<Rightarrow> bool" where
  "every p [] = True"
| "every p (Hole # xs) = every p xs"
| "every p (x # xs) = (if p x then every p xs else False)"

section \<open>Content model (types.ts)\<close>

record 'a Localized =
  original :: 'a
  english :: 'a

type_synonym LocalizedContent = "jsstring Localized"
type_synonym LocalizedList = "jsstring list Localized"

datatype language = Original | English

definition pick :: "language \<Rightarrow> 'a Localized \<Rightarrow> 'a" where
  "pick l x = (case l of Original \<Rightarrow> original x | English \<Rightarrow> english x)"

record Activity =
  title :: LocalizedContent
  topic :: LocalizedContent
  objective :: LocalizedContent
  materials :: LocalizedList
  instructions :: LocalizedList
  duration :: LocalizedContent
  ageAppropriateness :: LocalizedContent
  stepImagePrompts :: "jsstring list"
  parentKnowledge :: LocalizedContent

datatype material_type = Video | Audio

record StudyMaterial =
  mat_title :: jsstring
  mat_url :: "jsstring option"
  mat_type :: material_type

record StudySession =
  summary :: "jsstring list"
  study_materials :: "StudyMaterial list"

text \<open>
  The record handed to \<open>onComplete\<close> (an ImpactRecord without \<open>id\<close> and
  \<open>timestamp\<close>), and the full record of the journal.
\<close>

record CompletionRecord =
  activityTitle :: jsstring
  rec_topic :: jsstring
  photoUrl :: "jsstring option"
  durationMinutes :: number

record ImpactRecord = CompletionRecord +
  rec_id :: jsstring
  timestamp :: int

datatype LoadingState = IDLE | READING_PDF | GENERATING | SUCCESS | ERROR

section \<open>The mission card (ActivityCard)\<close>

datatype card_mode = PREP | GUIDE

text \<open>
  An invocation of \<open>startGuiding\<close> suspended at \<open>await generateStepImage(prompt)\<close>:
  its local array \<open>images\<close> and the prompts the loop has not reached yet.
\<close>

record image_task =
  images :: "jsstring list"
  rest :: "jsstring list"

text \<open>
  An invocation of \<open>playNarration\<close> after its guard: suspended at
  \<open>await generateSpeech(text)\<close>, or past \<open>source.start()\<close> with \<open>onended\<close> to come.
\<close>

datatype narration = AwaitingSpeech | Playing

text \<open>
  The card: its two props, its ten state variables, the audio context reference, and what
  the run time holds for it: the suspended invocations, whether the browser has an audio
  context to give, and the requests sent to the generation service so far together with
  every value passed to \<open>setStepImages\<close>.
\<close>

record card =
  activity :: Activity
  displayLanguage :: language
  isExpanded :: bool
  stepImages :: "jsstring list"
  loadingImages :: bool
  completedSteps :: "slot list"
  swaps :: "jsstring \<rightharpoonup> jsstring"
  loadingSwap :: "jsstring option"
  isReading :: "nat option"
  successPhoto :: "jsstring option"
  showCamera :: bool
  mode :: card_mode
  audioCtx :: bool
  audioAvailable :: bool
  imageTasks :: "image_task list"
  narrations :: "narration list"
  imageRequests :: "jsstring list"
  speechRequests :: "jsstring list"
  published :: "jsstring list list"

text \<open>
  The effect on \<open>[activity]\<close>: the completion array is (re)filled only for an activity
  with at least one instruction in the original language.
\<close>

definition initCompletedSteps :: "card \<Rightarrow> card" where
  "initCompletedSteps c =
     (let n = length (original (instructions (activity c)))
      in if 0 < n then c\<lparr>completedSteps := replicate n (Val False)\<rparr> else c)"

text \<open>Mounting a card: the initial values of \<open>useState\<close>, then the effect.\<close>

definition mount :: "Activity \<Rightarrow> language \<Rightarrow> bool \<Rightarrow> card" where
  "mount a l av = initCompletedSteps
     \<lparr>activity = a, displayLanguage = l, isExpanded = False, stepImages = [],
      loadingImages = False, completedSteps = [], swaps = Map.empty, loadingSwap = None,
      isReading = None, successPhoto = None, showCamera = False, mode = PREP,
      audioCtx = False, audioAvailable = av, imageTasks = [], narrations = [],
      imageRequests = [], speechRequests = [], published = []\<rparr>"

definition toggleStep :: "nat \<Rightarrow> slot list \<Rightarrow> slot list" where
  "toggleStep index prev =
     (let next = spread prev in array_set next index (Val (js_not (array_get next index))))"

definition allDone :: "slot list \<Rightarrow> bool" where
  "allDone cs = (0 < length cs \<and> every truthy cs)"

subsection \<open>Step images (startGuiding)\<close>

text \<open>
  \<open>generateStepImage\<close> on what the service answered: \<open>None\<close> when the request
  itself failed, otherwise the parts of the first candidate, each with the data of its
  \<open>inlineData\<close> if it has one. The first such part gives the data URL; with none the
  function throws. \<open>None\<close> as a result stands for the rejected promise.
\<close>

definition generateStepImage :: "jsstring option list option \<Rightarrow> jsstring option" where
  "generateStepImage response =
     (case response of
        None \<Rightarrow> None
      | Some parts \<Rightarrow>
          (case List.map_filter (\<lambda>part. part) parts of
             [] \<Rightarrow> None
           | d # _ \<Rightarrow> Some (js ''data:image/png;base64,'' @ d)))"

text \<open>
  The head of the \<open>for\<close> loop of \<open>startGuiding\<close>, for an invocation whose local
  array is \<open>imgs\<close> and whose remaining prompts are \<open>ps\<close>: the next prompt is sent
  and the invocation suspends on the answer, or the loop is over and \<open>finally\<close>
  clears the loading flag.
\<close>

definition nextPrompt :: "jsstring list \<Rightarrow> jsstring list \<Rightarrow> card \<Rightarrow> image_task option \<times> card" where
  "nextPrompt imgs ps c =
     (case ps of
        [] \<Rightarrow> (None, c\<lparr>loadingImages := False\<rparr>)
      | p # ps' \<Rightarrow> (Some \<lparr>images = imgs, rest = ps'\<rparr>, c\<lparr>imageRequests := imageRequests c @ [p]\<rparr>))"

definition startGuiding :: "card \<Rightarrow> card" where
  "startGuiding c0 =
     (let c = c0\<lparr>mode := GUIDE\<rparr>
      in if length (stepImages c) = 0 \<and> \<not> loadingImages c
         then (case nextPrompt [] (stepImagePrompts (activity c)) (c\<lparr>loadingImages := True\<rparr>) of
                 (None, c') \<Rightarrow> c'
               | (Some t, c') \<Rightarrow> c'\<lparr>imageTasks := imageTasks c' @ [t]\<rparr>)
         else c)"

text \<open>
  The promise awaited by the \<open>k\<close>-th suspended invocation settles: resolved with an
  image URL, which is pushed and published, or rejected, which pushes the empty string
  to the local array only. The loop then goes on.
\<close>

definition imageSettled :: "nat \<Rightarrow> jsstring option \<Rightarrow> card \<Rightarrow> card" where
  "imageSettled k outcome c =
     (if k < length (imageTasks c)
      then let t = imageTasks c ! k;
               (imgs, c1) =
                 (case outcome of
                    Some imgUrl \<Rightarrow>
                      (let imgs = images t @ [imgUrl]
                       in (imgs, c\<lparr>stepImages := imgs, published := published c @ [imgs]\<rparr>))
                  | None \<Rightarrow> (images t @ [[]], c))
           in (case nextPrompt imgs (rest t) c1 of
                 (None, c2) \<Rightarrow>
                   c2\<lparr>imageTasks := take k (imageTasks c) @ drop (Suc k) (imageTasks c)\<rparr>
               | (Some t', c2) \<Rightarrow> c2\<lparr>imageTasks := (imageTasks c)[k := t']\<rparr>)
      else c)"

subsection \<open>Narration (playNarration)\<close>

datatype exn = RangeError | NotSupportedError | SyntaxError | TypeError | ServiceError

text \<open>The 16-bit samples of a byte buffer, low byte first.\<close>

fun samples :: "8 word list \<Rightarrow> 16 word list" where
  "samples (lo # hi # bs) = (ucast lo OR push_bit 8 (ucast hi)) # samples bs"
| "samples bs = []"

text \<open>
  \<open>decodeAudioData\<close> for one channel: the \<open>Int16Array\<close> view needs an even number
  of bytes, and \<open>createBuffer\<close> at least one frame. The buffer is given by its samples
  (each is divided by 32768 when stored).
\<close>

definition decodeAudioData :: "8 word list \<Rightarrow> exn + 16 word list" where
  "decodeAudioData data =
     (if odd (length data) then Inl RangeError
      else let frameCount = length data div 2
           in if frameCount = 0 then Inl NotSupportedError else Inr (samples data))"

definition removeAt :: "nat \<Rightarrow> 'a list \<Rightarrow> 'a list" where
  "removeAt k xs = take k xs @ drop (Suc k) xs"

definition playNarration :: "jsstring \<Rightarrow> nat \<Rightarrow> card \<Rightarrow> card" where
  "playNarration text index c =
     (if isReading c \<noteq> None then c
      else let c1 = c\<lparr>isReading := Some index\<rparr>
           in if \<not> audioCtx c1 \<and> \<not> audioAvailable c1
              then c1\<lparr>isReading := None\<rparr>
              else c1\<lparr>audioCtx := True,
                      speechRequests := speechRequests c1 @ [text],
                      narrations := narrations c1 @ [AwaitingSpeech]\<rparr>)"

text \<open>
  The promise of \<open>generateSpeech\<close> awaited by the \<open>k\<close>-th narration settles:
  rejected (\<open>None\<close>), or resolved with the bytes, which are decoded and played.
\<close>

definition speechSettled :: "nat \<Rightarrow> 8 word list option \<Rightarrow> card \<Rightarrow> card" where
  "speechSettled k outcome c =
     (if k < length (narrations c) \<and> narrations c ! k = AwaitingSpeech
      then (case outcome of
              None \<Rightarrow> c\<lparr>isReading := None, narrations := removeAt k (narrations c)\<rparr>
            | Some audioBytes \<Rightarrow>
                (case decodeAudioData audioBytes of
                   Inl err \<Rightarrow> c\<lparr>isReading := None, narrations := removeAt k (narrations c)\<rparr>
                 | Inr buffer \<Rightarrow> c\<lparr>narrations := (narrations c)[k := Playing]\<rparr>))
      else c)"

text \<open>\<open>source.onended\<close> of the \<open>k\<close>-th narration.\<close>

definition playbackEnded :: "nat \<Rightarrow> card \<Rightarrow> card" where
  "playbackEnded k c =
     (if k < length (narrations c) \<and> narrations c ! k = Playing
      then c\<lparr>isReading := None, narrations := removeAt k (narrations c)\<rparr>
      else c)"

subsection \<open>Completion (finishMission)\<close>

text \<open>\<open>s.match(/\d+/)\<close>: element 0 of the match, or \<open>None\<close> for \<open>null\<close>.\<close>

fun matchDigits :: "jsstring \<Rightarrow> jsstring option" where
  "matchDigits [] = None"
| "matchDigits (c # cs) =
     (if isDigit c then Some (c # takeWhile isDigit cs) else matchDigits cs)"

definition finishMission :: "card \<Rightarrow> CompletionRecord \<times> card" where
  "finishMission c =
     (let l = displayLanguage c;
          durationMatch = matchDigits (pick l (duration (activity c)));
          minutes = (case durationMatch of Some m \<Rightarrow> parseInt m | None \<Rightarrow> Fin 15)
      in (\<lparr>activityTitle = pick l (title (activity c)),
           rec_topic = pick l (topic (activity c)),
           photoUrl = successPhoto c,
           durationMinutes = minutes\<rparr>,
          c\<lparr>isExpanded := False\<rparr>))"

text \<open>Truthiness of a string or \<open>null\<close>.\<close>

definition truthyStr :: "jsstring option \<Rightarrow> bool" where
  "truthyStr v = (case v of None \<Rightarrow> False | Some s \<Rightarrow> s \<noteq> [])"

text \<open>
  The two buttons wired to \<open>finishMission\<close> ("Skip for Now" and "Save to Wellness
  Journal") are rendered inside \<open>isExpanded && (mode === 'PREP' ? ... : ... {allDone && ...})\<close>;
  the first when there is neither photo nor camera, the second when the camera is off and
  there is a photo. The handler itself has no guard: it is reached through them only.
\<close>

definition finishButtonRendered :: "card \<Rightarrow> bool" where
  "finishButtonRendered c =
     (isExpanded c \<and> mode c \<noteq> PREP \<and> allDone (completedSteps c) \<and>
      (if \<not> truthyStr (successPhoto c) \<and> \<not> showCamera c then True
       else if showCamera c then False
       else True))"

definition pressFinish :: "card \<Rightarrow> CompletionRecord option \<times> card" where
  "pressFinish c =
     (if finishButtonRendered c
      then (case finishMission c of (r, c') \<Rightarrow> (Some r, c'))
      else (None, c))"

subsection \<open>The card as a transition system\<close>

datatype event =
    Expand
  | Collapse
  | ShowPrep
  | BeginMission
  | ImageSettled nat "jsstring option"
  | ToggleStep nat
  | Narrate nat
  | SpeechSettled nat "8 word list option"
  | PlaybackEnded nat
  | StartCamera
  | CloseCamera
  | TakePhoto jsstring
  | Retake
  | Finish
  | SetLanguage language

definition guideShown :: "card \<Rightarrow> bool" where
  "guideShown c = (isExpanded c \<and> mode c \<noteq> PREP)"

definition shownInstructions :: "card \<Rightarrow> jsstring list" where
  "shownInstructions c = pick (displayLanguage c) (instructions (activity c))"

text \<open>
  A user event acts only if its button is on the screen; the callbacks of the pending
  requests act whenever they arrive.
\<close>

fun step :: "card \<Rightarrow> event \<Rightarrow> card" where
  "step c Expand = c\<lparr>isExpanded := True\<rparr>"
| "step c Collapse = (if isExpanded c then c\<lparr>isExpanded := False\<rparr> else c)"
| "step c ShowPrep = (if isExpanded c then c\<lparr>mode := PREP\<rparr> else c)"
| "step c BeginMission = (if isExpanded c then startGuiding c else c)"
| "step c (ImageSettled k outcome) = imageSettled k outcome c"
| "step c (ToggleStep idx) =
     (if guideShown c \<and> idx < length (shownInstructions c)
      then c\<lparr>completedSteps := toggleStep idx (completedSteps c)\<rparr> else c)"
| "step c (Narrate idx) =
     (if guideShown c \<and> idx < length (shownInstructions c)
      then playNarration (shownInstructions c ! idx) idx c else c)"
| "step c (SpeechSettled k outcome) = speechSettled k outcome c"
| "step c (PlaybackEnded k) = playbackEnded k c"
| "step c StartCamera =
     (if guideShown c \<and> allDone (completedSteps c) \<and> \<not> truthyStr (successPhoto c) \<and> \<not> showCamera c
      then c\<lparr>showCamera := True\<rparr> else c)"
| "step c CloseCamera = c\<lparr>showCamera := False\<rparr>"
| "step c (TakePhoto url) =
     (if guideShown c \<and> allDone (completedSteps c) \<and> showCamera c
      then c\<lparr>successPhoto := Some url, showCamera := False\<rparr> else c)"
| "step c Retake =
     (if guideShown c \<and> allDone (completedSteps c) \<and> truthyStr (successPhoto c) \<and> \<not> showCamera c
      then c\<lparr>successPhoto := None\<rparr> else c)"
| "step c Finish = snd (pressFinish c)"
| "step c (SetLanguage l) = c\<lparr>displayLanguage := l\<rparr>"

definition run :: "card \<Rightarrow> event list \<Rightarrow> card" where
  "run c es = foldl step c es"

section \<open>JSON (the platform's \<open>JSON\<close> object)\<close>

text \<open>
  \<open>saveImpact\<close> writes the journal with \<open>JSON.stringify\<close> and the load effect
  reads it with \<open>JSON.parse\<close>. Both belong to the platform. They are written out here
  after the language standard as far as the journal needs them: \<open>JSON.stringify\<close> on
  lists of journal records, \<open>JSON.parse\<close> on every text.
\<close>

subsection \<open>Values\<close>

text \<open>
  What \<open>JSON.parse\<close> builds, as a tree. A number is kept as the decimal numeral that
  was read: \<open>JNumber neg m d\<close> is \<open>m / 10^d\<close>, negated if \<open>neg\<close>. The double it denotes
  is taken where the value is read as a field of a record. An object keeps its members in
  the order of the text.
\<close>

datatype json = JNull | JBool bool | JNumber bool nat nat | JString jsstring
  | JArray "json list" | JObject "(jsstring \<times> json) list"

subsection \<open>\<open>JSON.stringify\<close>\<close>

text \<open>
  \<open>QuoteJSONString\<close>: the string between double quotes, with the short escapes for
  backspace, tab, line feed, form feed, carriage return, the double quote and the
  backslash, a \<open>u\<close> escape of four lower-case hexadecimal digits for the other code
  units below 0x20 and for a surrogate outside a pair, and every other code unit as it
  is.
\<close>

definition hexDigit :: "nat \<Rightarrow> jschar" where
  "hexDigit n = (if n < 10 then of_nat (48 + n) else of_nat (87 + n))"

definition hex4 :: "jschar \<Rightarrow> jsstring" where
  "hex4 c = (let u = unat c
             in [hexDigit (u div 4096), hexDigit (u div 256 mod 16),
                 hexDigit (u div 16 mod 16), hexDigit (u mod 16)])"

definition isHigh :: "jschar \<Rightarrow> bool" where
  "isHigh c = (0xD800 \<le> c \<and> c \<le> 0xDBFF)"

definition isLow :: "jschar \<Rightarrow> bool" where
  "isLow c = (0xDC00 \<le> c \<and> c \<le> 0xDFFF)"

definition quoteUnit :: "jschar \<Rightarrow> jsstring" where
  "quoteUnit c =
     (if c = 0x08 then [0x5C, 0x62]
      else if c = 0x09 then [0x5C, 0x74]
      else if c = 0x0A then [0x5C, 0x6E]
      else if c = 0x0C then [0x5C, 0x66]
      else if c = 0x0D then [0x5C, 0x72]
      else if c = 0x22 then [0x5C, 0x22]
      else if c = 0x5C then [0x5C, 0x5C]
      else if c < 0x20 \<or> isHigh c \<or> isLow c then [0x5C, 0x75] @ hex4 c
      else [c])"

fun quoteChars :: "jsstring \<Rightarrow> jsstring" where
  "quoteChars [] = []"
| "quoteChars [c] = quoteUnit c"
| "quoteChars (c # d # cs) =
     (if isHigh c \<and> isLow d then c # d # quoteChars cs
      else quoteUnit c @ quoteChars (d # cs))"

definition quoteJSONString :: "jsstring \<Rightarrow> jsstring" where
  "quoteJSONString s = 0x22 # quoteChars s @ [0x22]"

text \<open>
  \<open>Number::toString\<close> on a non-negative integer \<open>v\<close> that is a double.
  \<open>dec\<close> writes a natural number in decimal. \<open>shortest v\<close> is the pair \<open>(s, e)\<close>
  such that \<open>s\<close> has the fewest digits for which the numeral \<open>s * 10^e\<close> converts to
  \<open>v\<close>, and among those is nearest to \<open>v\<close> (an even \<open>s\<close> on a tie); the only
  \<open>s\<close> to try for an exponent \<open>e\<close> are the two neighbours of \<open>v / 10^e\<close>. Up to
  21 digits the numeral is written in full, beyond that with an exponent.
\<close>

definition digitChar :: "nat \<Rightarrow> jschar" where
  "digitChar d = of_nat (48 + d)"

fun dec :: "nat \<Rightarrow> jsstring" where
  "dec n = (if n < 10 then [digitChar n] else dec (n div 10) @ [digitChar (n mod 10)])"

declare dec.simps [simp del]

definition distance :: "nat \<Rightarrow> nat \<times> nat \<Rightarrow> nat" where
  "distance v c = (let x = fst c * 10 ^ snd c in if v \<le> x then x - v else v - x)"

definition better :: "nat \<Rightarrow> nat \<times> nat \<Rightarrow> nat \<times> nat \<Rightarrow> bool" where
  "better v c b =
     (distance v c < distance v b \<or> (distance v c = distance v b \<and> even (fst c) \<and> odd (fst b)))"

definition best :: "nat \<Rightarrow> (nat \<times> nat) list \<Rightarrow> nat \<times> nat" where
  "best v cs = foldl (\<lambda>b c. if better v c b then c else b) (hd cs) (tl cs)"

definition candidates :: "nat \<Rightarrow> nat \<Rightarrow> nat \<Rightarrow> (nat \<times> nat) list" where
  "candidates v n k =
     filter (\<lambda>c. 10 ^ (k - 1) \<le> fst c \<and> fst c < 10 ^ k \<and> toNumber (fst c * 10 ^ snd c) = Fin v)
       (concat (map (\<lambda>e. [(v div 10 ^ e, e), (v div 10 ^ e + 1, e)]) [n - k, Suc n - k]))"

definition shortest :: "nat \<Rightarrow> nat \<times> nat" where
  "shortest v =
     (let n = length (dec v)
      in case List.find (\<lambda>k. candidates v n k \<noteq> []) [1..<Suc n] of
           None \<Rightarrow> (v, 0)
         | Some k \<Rightarrow> best v (candidates v n k))"

definition numberToString :: "nat \<Rightarrow> jsstring" where
  "numberToString v =
     (if v = 0 then [0x30]
      else let c = shortest v; ds = dec (fst c); n = length ds + snd c
           in if n \<le> 21 then ds @ replicate (snd c) 0x30
              else hd ds # (if tl ds = [] then [] else 0x2E # tl ds) @ [0x65, 0x2B] @ dec (n - 1))"

text \<open>
  A number that is not finite is written \<open>null\<close>. \<open>durationMinutes\<close> is a
  \<open>number\<close> of the model, \<open>timestamp\<close> an integer.
\<close>

definition serializeNumber :: "number \<Rightarrow> jsstring" where
  "serializeNumber x = (case x of Fin v \<Rightarrow> numberToString v | _ \<Rightarrow> js ''null'')"

definition serializeInt :: "int \<Rightarrow> jsstring" where
  "serializeInt t = (if t < 0 then 0x2D # numberToString (nat (- t)) else numberToString (nat t))"

text \<open>
  An object is written with its properties in the order of their creation, and with no
  white space since no indentation is asked for. \<open>handleActivityComplete\<close> creates a
  record by spreading the record of the card, whose properties \<open>finishMission\<close> wrote
  in the order \<open>activityTitle\<close>, \<open>topic\<close>, \<open>photoUrl\<close>, \<open>durationMinutes\<close>, and
  then adding \<open>id\<close> and \<open>timestamp\<close>. \<open>photoUrl\<close> is a string or \<open>null\<close>.
\<close>

definition property :: "string \<Rightarrow> jsstring \<Rightarrow> jsstring" where
  "property k v = quoteJSONString (js k) @ 0x3A # v"

definition serializeRecord :: "ImpactRecord \<Rightarrow> jsstring" where
  "serializeRecord r =
     0x7B # property ''activityTitle'' (quoteJSONString (activityTitle r)) @
     0x2C # property ''topic'' (quoteJSONString (rec_topic r)) @
     0x2C # property ''photoUrl''
              (case photoUrl r of None \<Rightarrow> js ''null'' | Some p \<Rightarrow> quoteJSONString p) @
     0x2C # property ''durationMinutes'' (serializeNumber (durationMinutes r)) @
     0x2C # property ''id'' (quoteJSONString (rec_id r)) @
     0x2C # property ''timestamp'' (serializeInt (timestamp r)) @ [0x7D]"

fun joinComma :: "jsstring list \<Rightarrow> jsstring" where
  "joinComma [] = []"
| "joinComma [x] = x"
| "joinComma (x # y # ys) = x @ 0x2C # joinComma (y # ys)"

definition JSON_stringify :: "ImpactRecord list \<Rightarrow> jsstring" where
  "JSON_stringify rs = 0x5B # joinComma (map serializeRecord rs) @ [0x5D]"

subsection \<open>\<open>JSON.parse\<close>\<close>

text \<open>White space of the JSON grammar: space, tab, line feed and carriage return.\<close>

definition isJsonWs :: "jschar \<Rightarrow> bool" where
  "isJsonWs c = (c = 0x20 \<or> c = 0x09 \<or> c = 0x0A \<or> c = 0x0D)"

definition skipWs :: "jsstring \<Rightarrow> jsstring" where
  "skipWs s = dropWhile isJsonWs s"

text \<open>
  The characters of a string after its opening quote, up to the closing one: an escape is
  replaced by what it stands for, a code unit below 0x20 is refused. The result is the
  string and the text after the closing quote.
\<close>

definition hexVal :: "jschar \<Rightarrow> nat option" where
  "hexVal c =
     (if 0x30 \<le> c \<and> c \<le> 0x39 then Some (unat c - 48)
      else if 0x41 \<le> c \<and> c \<le> 0x46 then Some (unat c - 55)
      else if 0x61 \<le> c \<and> c \<le> 0x66 then Some (unat c - 87)
      else None)"

definition unhex4 :: "jschar \<Rightarrow> jschar \<Rightarrow> jschar \<Rightarrow> jschar \<Rightarrow> jschar option" where
  "unhex4 a b c d =
     Option.bind (hexVal a) (\<lambda>x. Option.bind (hexVal b) (\<lambda>y. Option.bind (hexVal c) (\<lambda>z.
       Option.bind (hexVal d) (\<lambda>w. Some (of_nat (((x * 16 + y) * 16 + z) * 16 + w))))))"

definition unescape :: "jschar \<Rightarrow> jschar option" where
  "unescape e =
     (if e = 0x22 then Some 0x22
      else if e = 0x5C then Some 0x5C
      else if e = 0x2F then Some 0x2F
      else if e = 0x62 then Some 0x08
      else if e = 0x66 then Some 0x0C
      else if e = 0x6E then Some 0x0A
      else if e = 0x72 then Some 0x0D
      else if e = 0x74 then Some 0x09
      else None)"

definition consChar :: "jschar \<Rightarrow> (jsstring \<times> jsstring) option \<Rightarrow> (jsstring \<times> jsstring) option" where
  "consChar u p = (case p of None \<Rightarrow> None | Some (str, r) \<Rightarrow> Some (u # str, r))"

fun parseChars :: "jsstring \<Rightarrow> (jsstring \<times> jsstring) option" where
  "parseChars [] = None"
| "parseChars (c # cs) =
     (if c = 0x22 then Some ([], cs)
      else if c = 0x5C then
        (case cs of
           [] \<Rightarrow> None
         | e # r \<Rightarrow>
             if e = 0x75 then
               (case r of
                  a # b # x # y # r' \<Rightarrow>
                    (case unhex4 a b x y of None \<Rightarrow> None | Some u \<Rightarrow> consChar u (parseChars r'))
                | _ \<Rightarrow> None)
             else (case unescape e of None \<Rightarrow> None | Some u \<Rightarrow> consChar u (parseChars r)))
      else if c < 0x20 then None
      else consChar c (parseChars cs))"

text \<open>
  A number of the grammar: an optional minus sign, digits with no superfluous leading
  zero, an optional fraction and an optional exponent. With fraction digits \<open>fd\<close> and
  exponent \<open>ex\<close> the numeral read is the integer of all the digits times
  \<open>10^(ex - length fd)\<close>.
\<close>

definition mkNumber :: "bool \<Rightarrow> nat \<Rightarrow> int \<Rightarrow> json" where
  "mkNumber neg m e = (if 0 \<le> e then JNumber neg (m * 10 ^ nat e) 0 else JNumber neg m (nat (- e)))"

definition parseFraction :: "jsstring \<Rightarrow> (jsstring \<times> jsstring) option" where
  "parseFraction s =
     (case s of
        [] \<Rightarrow> Some ([], [])
      | c # cs \<Rightarrow>
          if c = 0x2E
          then (let fd = takeWhile isDigit cs
                in if fd = [] then None else Some (fd, dropWhile isDigit cs))
          else Some ([], s))"

definition parseExponent :: "jsstring \<Rightarrow> (int \<times> jsstring) option" where
  "parseExponent s =
     (case s of
        [] \<Rightarrow> Some (0, [])
      | c # cs \<Rightarrow>
          if c = 0x65 \<or> c = 0x45
          then (let neg = (cs \<noteq> [] \<and> hd cs = 0x2D);
                    t = (if cs \<noteq> [] \<and> (hd cs = 0x2D \<or> hd cs = 0x2B) then tl cs else cs);
                    ed = takeWhile isDigit t
                in if ed = [] then None
                   else Some (if neg then - int (digitsValue ed) else int (digitsValue ed),
                              dropWhile isDigit t))
          else Some (0, s))"

definition parseNumber :: "jsstring \<Rightarrow> (json \<times> jsstring) option" where
  "parseNumber s =
     (let neg = (s \<noteq> [] \<and> hd s = 0x2D);
          s1 = (if neg then tl s else s);
          ds = takeWhile isDigit s1
      in if ds = [] \<or> (hd ds = 0x30 \<and> 1 < length ds) then None
         else (case parseFraction (dropWhile isDigit s1) of
                 None \<Rightarrow> None
               | Some (fd, s3) \<Rightarrow>
                   (case parseExponent s3 of
                      None \<Rightarrow> None
                    | Some (ex, s4) \<Rightarrow>
                        Some (mkNumber neg (digitsValue (ds @ fd)) (ex - int (length fd)), s4))))"

text \<open>
  Values, the elements of an array after its opening bracket, and the members of an object
  after its opening brace. The three functions call each other; they descend on a counter,
  which makes the recursion structural. \<open>JSON_parse\<close> starts them with more than they
  can use (lemma \<open>JSON_parse_fuel\<close>), so \<open>Exhausted\<close> is never its reason to refuse a
  text. A text that is not a value followed by white space only is a \<open>SyntaxError\<close>.
\<close>

datatype 'a reading = Parsed 'a jsstring | Failed | Exhausted

definition mapParsed :: "('a \<Rightarrow> 'b) \<Rightarrow> 'a reading \<Rightarrow> 'b reading" where
  "mapParsed f p = (case p of Parsed v r \<Rightarrow> Parsed (f v) r | Failed \<Rightarrow> Failed | Exhausted \<Rightarrow> Exhausted)"

fun parseValue :: "nat \<Rightarrow> jsstring \<Rightarrow> json reading"
  and parseElements :: "nat \<Rightarrow> jsstring \<Rightarrow> json list reading"
  and parseMembers :: "nat \<Rightarrow> jsstring \<Rightarrow> (jsstring \<times> json) list reading" where
  "parseValue 0 s = Exhausted"
| "parseValue (Suc f) s =
     (case s of
        [] \<Rightarrow> Failed
      | c # cs \<Rightarrow>
          if c = 0x5B then
            (case skipWs cs of
               [] \<Rightarrow> Failed
             | d # ds \<Rightarrow> if d = 0x5D then Parsed (JArray []) ds
                         else mapParsed JArray (parseElements f (d # ds)))
          else if c = 0x7B then
            (case skipWs cs of
               [] \<Rightarrow> Failed
             | d # ds \<Rightarrow> if d = 0x7D then Parsed (JObject []) ds
                         else mapParsed JObject (parseMembers f (d # ds)))
          else if c = 0x22 then
            (case parseChars cs of None \<Rightarrow> Failed | Some (str, r) \<Rightarrow> Parsed (JString str) r)
          else if prefix (js ''null'') s then Parsed JNull (drop 4 s)
          else if prefix (js ''true'') s then Parsed (JBool True) (drop 4 s)
          else if prefix (js ''false'') s then Parsed (JBool False) (drop 5 s)
          else (case parseNumber s of None \<Rightarrow> Failed | Some (v, r) \<Rightarrow> Parsed v r))"
| "parseElements 0 s = Exhausted"
| "parseElements (Suc f) s =
     (case parseValue f s of
        Parsed v r \<Rightarrow>
          (case skipWs r of
             [] \<Rightarrow> Failed
           | d # ds \<Rightarrow>
               if d = 0x2C then mapParsed ((#) v) (parseElements f (skipWs ds))
               else if d = 0x5D then Parsed [v] ds
               else Failed)
      | Failed \<Rightarrow> Failed
      | Exhausted \<Rightarrow> Exhausted)"
| "parseMembers 0 s = Exhausted"
| "parseMembers (Suc f) s =
     (case s of
        [] \<Rightarrow> Failed
      | c # cs \<Rightarrow>
          if c \<noteq> 0x22 then Failed
          else (case parseChars cs of
                  None \<Rightarrow> Failed
                | Some (key, r) \<Rightarrow>
                    (case skipWs r of
                       [] \<Rightarrow> Failed
                     | d # ds \<Rightarrow>
                         if d \<noteq> 0x3A then Failed
                         else (case parseValue f (skipWs ds) of
                                 Parsed v r1 \<Rightarrow>
                                   (case skipWs r1 of
                                      [] \<Rightarrow> Failed
                                    | x # xs \<Rightarrow>
                                        if x = 0x2C
                                        then mapParsed ((#) (key, v)) (parseMembers f (skipWs xs))
                                        else if x = 0x7D then Parsed [(key, v)] xs
                                        else Failed)
                               | Failed \<Rightarrow> Failed
                               | Exhausted \<Rightarrow> Exhausted))))"

definition JSON_parse :: "jsstring \<Rightarrow> exn + json" where
  "JSON_parse text =
     (case parseValue (Suc (2 * length text)) (skipWs text) of
        Parsed v r \<Rightarrow> if skipWs r = [] then Inr v else Inl SyntaxError
      | Failed \<Rightarrow> Inl SyntaxError
      | Exhausted \<Rightarrow> Inl SyntaxError)"

subsection \<open>Reading a value as a journal\<close>

text \<open>
  The load effect hands what \<open>JSON.parse\<close> returns to \<open>setImpactRecords\<close> as it
  is. The journal of the model is a list of records, so the value is read as one:
  \<open>asJournal v\<close> is the list of records that \<open>v\<close> stands for, if it stands for one
  exactly. That is an array of objects with the six properties in the order the
  application creates them (the order in which \<open>JSON.stringify\<close> would write them
  again): two strings, a string or \<open>null\<close>, a number that \<open>number\<close> can hold, a
  string and an integer. A numeral that denotes an integer is read as the double nearest
  to it. Every other value is left as it is (see \<open>loadEffect\<close>).
\<close>

definition asString :: "json \<Rightarrow> jsstring option" where
  "asString v = (case v of JString s \<Rightarrow> Some s | _ \<Rightarrow> None)"

definition asPhoto :: "json \<Rightarrow> jsstring option option" where
  "asPhoto v = (case v of JNull \<Rightarrow> Some None | JString s \<Rightarrow> Some (Some s) | _ \<Rightarrow> None)"

definition asNumber :: "json \<Rightarrow> number option" where
  "asNumber v =
     (case v of
        JNumber neg m d \<Rightarrow>
          if \<not> neg \<and> m mod 10 ^ d = 0 then Some (toNumber (m div 10 ^ d)) else None
      | _ \<Rightarrow> None)"

definition asInteger :: "json \<Rightarrow> int option" where
  "asInteger v =
     (case v of
        JNumber neg m d \<Rightarrow>
          if m mod 10 ^ d = 0
          then (case toNumber (m div 10 ^ d) of
                  Fin n \<Rightarrow> if neg then (if n = 0 then None else Some (- int n)) else Some (int n)
                | _ \<Rightarrow> None)
          else None
      | _ \<Rightarrow> None)"

definition recordKeys :: "jsstring list" where
  "recordKeys = [js ''activityTitle'', js ''topic'', js ''photoUrl'', js ''durationMinutes'',
                 js ''id'', js ''timestamp'']"

definition asRecord :: "json \<Rightarrow> ImpactRecord option" where
  "asRecord v =
     (case v of
        JObject ms \<Rightarrow>
          if map fst ms = recordKeys
          then (case map snd ms of
                  [a, b, c, d, e, t] \<Rightarrow>
                    Option.bind (asString a) (\<lambda>activityName.
                    Option.bind (asString b) (\<lambda>subject.
                    Option.bind (asPhoto c) (\<lambda>photo.
                    Option.bind (asNumber d) (\<lambda>minutes.
                    Option.bind (asString e) (\<lambda>ident.
                    Option.bind (asInteger t) (\<lambda>stamp.
                      Some \<lparr>activityTitle = activityName, rec_topic = subject, photoUrl = photo,
                            durationMinutes = minutes, rec_id = ident, timestamp = stamp\<rparr>))))))
                | _ \<Rightarrow> None)
          else None
      | _ \<Rightarrow> None)"

definition asJournal :: "json \<Rightarrow> ImpactRecord list option" where
  "asJournal v = (case v of JArray vs \<Rightarrow> those (map asRecord vs) | _ \<Rightarrow> None)"

text \<open>
  \<open>Fin v\<close> is a number of the language when \<open>v\<close> is a double, which is what
  \<open>parseInt\<close> and \<open>Date.now()\<close> return. A record is \<open>storable\<close> when its
  duration is such a finite number and its time stamp is a number.
\<close>

definition isDouble :: "nat \<Rightarrow> bool" where
  "isDouble v = (toNumber v = Fin v)"

definition storable :: "ImpactRecord \<Rightarrow> bool" where
  "storable r =
     ((case durationMinutes r of Fin v \<Rightarrow> isDouble v | _ \<Rightarrow> False) \<and>
      isDouble (nat \<bar>timestamp r\<bar>))"

section \<open>The application (App)\<close>

datatype AppScreen = WELCOME | UPLOAD | PROCESSING | CHOICE | STUDY | RESULTS | JOURNAL

text \<open>
  The application reaches \<open>JSON.stringify\<close> and \<open>JSON.parse\<close> through the global
  \<open>JSON\<close> object, a parameter of the functions that use it. \<open>parse\<close> returns
  \<open>Inl\<close> where \<open>JSON.parse\<close> throws. \<open>platformJSON\<close> is the object of the
  platform.
\<close>

record JSON =
  stringify :: "ImpactRecord list \<Rightarrow> jsstring"
  parse :: "jsstring \<Rightarrow> exn + json"

definition platformJSON :: JSON where
  "platformJSON = \<lparr>stringify = JSON_stringify, parse = JSON_parse\<rparr>"

text \<open>
  The state of \<open>App\<close>, with the two things of the browser it writes to: the key-value
  store \<open>localStorage\<close> and the error console.
\<close>

record app =
  activities :: "Activity list"
  overallTopics :: "jsstring list"
  status :: LoadingState
  error :: "jsstring option"
  shownLanguage :: language
  appScreen :: AppScreen
  selectedPath :: "jsstring option"
  processingStage :: nat
  studySession :: "StudySession option"
  loadingStudy :: bool
  impactRecords :: "ImpactRecord list"
  localStorage :: "jsstring \<rightharpoonup> jsstring"
  console :: "(jsstring \<times> exn) list"

definition storageKey :: jsstring where
  "storageKey = js ''teachwell_impact''"

text \<open>The application as it starts in a browser whose store is \<open>st\<close>.\<close>

definition startApp :: "(jsstring \<rightharpoonup> jsstring) \<Rightarrow> app" where
  "startApp st =
     \<lparr>activities = [], overallTopics = [], status = IDLE, error = None,
      shownLanguage = Original, appScreen = WELCOME, selectedPath = None,
      processingStage = 0, studySession = None, loadingStudy = False,
      impactRecords = [], localStorage = st, console = []\<rparr>"

text \<open>
  The effect that loads the journal. \<open>Raised\<close> would be an exception leaving the
  effect; the inner \<open>case\<close> is the \<open>try\<close> block, the outer one the \<open>catch\<close>.
  \<open>setImpactRecords\<close> takes whatever \<open>JSON.parse\<close> returned: with a value that
  is a list of records the effect ends in \<open>Loaded\<close> with that list as the journal; with
  any other value \<open>v\<close> it ends just as normally, the journal then being \<open>v\<close>, which
  the state of the model cannot hold and \<open>Opaque v\<close> reports.
\<close>

datatype outcome = Raised exn | Loaded (loaded: app) | Opaque json

definition loadEffect :: "JSON \<Rightarrow> app \<Rightarrow> outcome" where
  "loadEffect J w =
     (case localStorage w storageKey of
        None \<Rightarrow> Loaded w
      | Some saved \<Rightarrow>
          if saved = [] then Loaded w
          else (case (case parse J saved of
                        Inl e \<Rightarrow> Inl e
                      | Inr v \<Rightarrow>
                          Inr (case asJournal v of
                                 Some records \<Rightarrow> Loaded (w\<lparr>impactRecords := records\<rparr>)
                               | None \<Rightarrow> Opaque v)) of
                  Inl e \<Rightarrow> Loaded (w\<lparr>console := console w @ [(js ''Failed to load impact data'', e)]\<rparr>)
                | Inr result \<Rightarrow> result))"

definition saveImpact :: "JSON \<Rightarrow> ImpactRecord list \<Rightarrow> app \<Rightarrow> app" where
  "saveImpact J newRecords w =
     w\<lparr>impactRecords := newRecords,
       localStorage := (localStorage w)(storageKey \<mapsto> stringify J newRecords)\<rparr>"

text \<open>
  \<open>fullRecord\<close> is \<open>{...record, id, timestamp}\<close>, where \<open>rid\<close> is what
  \<open>Math.random().toString(36).substr(2, 9)\<close> gave and \<open>now\<close> what \<open>Date.now()\<close> gave.
\<close>

definition fullRecord :: "CompletionRecord \<Rightarrow> jsstring \<Rightarrow> int \<Rightarrow> ImpactRecord" where
  "fullRecord record rid now =
     \<lparr>activityTitle = activityTitle record, rec_topic = rec_topic record,
      photoUrl = photoUrl record, durationMinutes = durationMinutes record,
      rec_id = rid, timestamp = now\<rparr>"

definition handleActivityComplete :: "JSON \<Rightarrow> jsstring \<Rightarrow> int \<Rightarrow> CompletionRecord \<Rightarrow> app \<Rightarrow> app" where
  "handleActivityComplete J rid now record w =
     (saveImpact J (fullRecord record rid now # impactRecords w) w)\<lparr>appScreen := JOURNAL\<rparr>"

definition reset :: "app \<Rightarrow> app" where
  "reset w =
     w\<lparr>activities := [], overallTopics := [], studySession := None, status := IDLE,
       error := None, appScreen := WELCOME\<rparr>"

text \<open>
  A press on a finish button of a card. Cards are on the screen only under
  \<open>appScreen === 'RESULTS' && status === LoadingState.SUCCESS\<close>, and their
  \<open>onComplete\<close> is \<open>handleActivityComplete\<close>.
\<close>

definition completeMission :: "JSON \<Rightarrow> jsstring \<Rightarrow> int \<Rightarrow> app \<times> card \<Rightarrow> app \<times> card" where
  "completeMission J rid now wc =
     (case wc of (w, c) \<Rightarrow>
        if appScreen w = RESULTS \<and> status w = SUCCESS
        then (case pressFinish c of
                (None, c') \<Rightarrow> (w, c')
              | (Some r, c') \<Rightarrow> (handleActivityComplete J rid now r w, c'))
        else (w, c))"

section \<open>Study materials (getStudyMaterials)\<close>

text \<open>
  What the function reads of the answer of the service: \<open>response.text\<close>, and the
  grounding chunks of the first candidate, each with its \<open>web\<close> part if it has one.
\<close>

record web_chunk =
  uri :: "jsstring option"
  web_title :: "jsstring option"

record service_response =
  response_text :: "jsstring option"
  groundingChunks :: "web_chunk option list option"

text \<open>\<open>s.split(sep)\<close> for a separator of one code unit.\<close>

fun split :: "jschar \<Rightarrow> jsstring \<Rightarrow> jsstring list" where
  "split sep [] = [[]]"
| "split sep (c # cs) =
     (if c = sep then [] # split sep cs
      else (let r = split sep cs in (c # hd r) # tl r))"

definition trim :: "jsstring \<Rightarrow> jsstring" where
  "trim s = rev (dropWhile isSpace (rev (dropWhile isSpace s)))"

text \<open>
  The first \<open>replace\<close>, with the flag \<open>g\<close>: every code unit of the class is
  removed. The class holds the hash, the asterisk, the bullet U+2022, the hyphen, the
  dashes U+2013 and U+2014 and the greater-than sign.
\<close>

definition removeMarks :: "jsstring \<Rightarrow> jsstring" where
  "removeMarks line = filter (\<lambda>c. c \<notin> {0x23, 0x2A, 0x2022, 0x2D, 0x2013, 0x2014, 0x3E}) line"

text \<open>
  \<open>line.replace(/^\d+\.\s*/, '')\<close>: the expression matches at the start only, when
  the leading digits are at least one and are followed by a full stop.
\<close>

definition removeNumbering :: "jsstring \<Rightarrow> jsstring" where
  "removeNumbering line =
     (let ds = takeWhile isDigit line; r = dropWhile isDigit line
      in if ds \<noteq> [] \<and> r \<noteq> [] \<and> hd r = 0x2E then dropWhile isSpace (tl r) else line)"

definition startsWith :: "jsstring \<Rightarrow> jsstring \<Rightarrow> bool" where
  "startsWith s p = (take (length p) s = p)"

fun js_includes :: "jsstring \<Rightarrow> jsstring \<Rightarrow> bool" where
  "js_includes [] p = (p = [])"
| "js_includes (c # cs) p = (startsWith (c # cs) p \<or> js_includes cs p)"

text \<open>
  \<open>/a|b|.../.test(x)\<close> for literal alternatives: one of them occurs in the argument,
  which is converted to a string first.
\<close>

definition regexTest :: "jsstring list \<Rightarrow> jsstring option \<Rightarrow> bool" where
  "regexTest alts x =
     (let s = (case x of None \<Rightarrow> js ''undefined'' | Some u \<Rightarrow> u)
      in list_ex (js_includes s) alts)"

definition isVideo :: "jsstring option \<Rightarrow> bool" where
  "isVideo url = regexTest [js ''youtube'', js ''vimeo'', js ''ted'', js ''video'', js ''youtu.be''] url"

definition isAudio :: "jsstring option \<Rightarrow> bool" where
  "isAudio url = regexTest [js ''spotify'', js ''podcast'', js ''soundcloud'', js ''apple'', js ''audio''] url"

text \<open>The body of \<open>chunks.forEach\<close>: what one chunk pushes to \<open>materials\<close>.\<close>

definition pushed :: "web_chunk option \<Rightarrow> StudyMaterial list" where
  "pushed chunk =
     (case chunk of
        None \<Rightarrow> []
      | Some web \<Rightarrow>
          (let url = uri web;
               title = (if truthyStr (web_title web) then the (web_title web)
                        else js ''TeachWell Resource'')
           in if isVideo url then [\<lparr>mat_title = title, mat_url = url, mat_type = Video\<rparr>]
              else if isAudio url then [\<lparr>mat_title = title, mat_url = url, mat_type = Audio\<rparr>]
              else []))"

definition getStudyMaterials :: "service_response \<Rightarrow> StudySession" where
  "getStudyMaterials response =
     (let rawText = (if truthyStr (response_text response) then the (response_text response) else []);
          summaryPoints =
            filter (\<lambda>line. 20 < length line \<and> \<not> js_includes line (js ''http''))
              (map (\<lambda>line. trim (removeNumbering line))
                 (map (\<lambda>line. trim (removeMarks line)) (split 0x0A rawText)));
          chunks = (case groundingChunks response of None \<Rightarrow> [] | Some cs \<Rightarrow> cs);
          materials = concat (map pushed chunks)
      in \<lparr>summary = summaryPoints, study_materials = take 10 materials\<rparr>)"

section \<open>Expected results of the image loop\<close>

text \<open>
  For the outcomes of the successive calls of \<open>generateStepImage\<close> (\<open>None\<close> for
  a failure), the array the loop has built, and the values it has published: one for every
  prefix of the outcomes that ends in a success.
\<close>

definition slotsOf :: "jsstring option list \<Rightarrow> jsstring list" where
  "slotsOf os = map (\<lambda>outcome. case outcome of None \<Rightarrow> [] | Some imgUrl \<Rightarrow> imgUrl) os"

definition publications :: "jsstring option list \<Rightarrow> jsstring list list" where
  "publications os =
     map slotsOf (filter (\<lambda>p. p \<noteq> [] \<and> last p \<noteq> None) (prefixes os))"

section \<open>Expected results of reading a written journal\<close>

text \<open>
  The value that \<open>JSON.parse\<close> builds from the text that \<open>JSON.stringify\<close> wrote
  for a list of records: \<open>literalValue v\<close> is what the numeral written for \<open>v\<close> reads
  as, and a duration that is not finite has become \<open>null\<close>. \<open>delimiter\<close> holds of
  the two characters that end a value inside an object.
\<close>

definition literalValue :: "nat \<Rightarrow> nat" where
  "literalValue v = (if v = 0 then 0 else fst (shortest v) * 10 ^ snd (shortest v))"

definition delimiter :: "jschar \<Rightarrow> bool" where
  "delimiter c = (c = 0x2C \<or> c = 0x7D)"

definition photoJson :: "jsstring option \<Rightarrow> json" where
  "photoJson p = (case p of None \<Rightarrow> JNull | Some url \<Rightarrow> JString url)"

definition numberJson :: "number \<Rightarrow> json" where
  "numberJson x = (case x of Fin v \<Rightarrow> JNumber False (literalValue v) 0 | _ \<Rightarrow> JNull)"

definition intJson :: "int \<Rightarrow> json" where
  "intJson t = JNumber (t < 0) (literalValue (nat \<bar>t\<bar>)) 0"

definition recordJson :: "ImpactRecord \<Rightarrow> json" where
  "recordJson r =
     JObject [(js ''activityTitle'', JString (activityTitle r)),
              (js ''topic'', JString (rec_topic r)),
              (js ''photoUrl'', photoJson (photoUrl r)),
              (js ''durationMinutes'', numberJson (durationMinutes r)),
              (js ''id'', JString (rec_id r)),
              (js ''timestamp'', intJson (timestamp r))]"

definition journalJson :: "ImpactRecord list \<Rightarrow> json" where
  "journalJson rs = JArray (map recordJson rs)"

section \<open>Example data\<close>

text \<open>A small activity, used where a property is shown on a concrete input.\<close>

definition both :: "'a \<Rightarrow> 'a Localized" where
  "both x = \<lparr>original = x, english = x\<rparr>"

definition exampleActivity :: "jsstring \<Rightarrow> jsstring list \<Rightarrow> jsstring list \<Rightarrow> Activity" where
  "exampleActivity d steps prompts =
     \<lparr>title = both (js ''Leaf hunt''), topic = both (js ''Botany''),
      objective = both (js ''Name three leaves''),
      materials = both [js ''paper'', js ''glue''], instructions = both steps,
      duration = both d, ageAppropriateness = both (js ''6-8''),
      stepImagePrompts = prompts, parentKnowledge = both (js ''Leaves make food.'')\<rparr>"

text \<open>A journal record.\<close>

definition exampleRecord :: ImpactRecord where
  "exampleRecord = \<lparr>activityTitle = js ''Leaf hunt'', rec_topic = js ''Botany'', photoUrl = None,
                     durationMinutes = Fin 45, rec_id = js ''k3x9'', timestamp = 1700000000000\<rparr>"

text \<open>
  A duration text of 310 digits, a one followed by 309 zeros, and a card of an activity
  with that duration.
\<close>

definition longDuration :: jsstring where
  "longDuration = 0x31 # replicate 309 0x30"

definition longCard :: card where
  "longCard = mount (exampleActivity longDuration [] []) Original True"

section \<open>Step completion\<close>

lemma every_Val: "every truthy (map Val bs) = (\<forall>b \<in> set bs. b)"
  by (induction bs) auto

lemma every_present: "every truthy cs = (\<forall>x \<in> set cs. x = Hole \<or> x = Val True)"
proof (induction cs)
  case Nil
  show ?case by simp
next
  case (Cons x cs)
  then show ?case by (cases x) auto
qed

lemma spread_Val: "spread (map Val bs) = map Val bs"
  by (simp add: spread_def)

lemma mount_fields:
  "completedSteps (mount a l av) = (if 0 < length (original (instructions a)) then replicate (length (original (instructions a))) (Val False) else [])"
  by (simp add: mount_def initCompletedSteps_def Let_def)

text \<open>
  Claim C2. \<open>allDone\<close> holds exactly when the completion array is not empty and
  every element it holds is true (\<open>every\<close> does not visit a hole, which only a toggle
  beyond the end leaves behind). So, for every sequence of booleans, \<open>allDone\<close> holds
  exactly when the sequence is not empty and all its elements are true. A card mounted
  for an activity with no instruction has the empty completion sequence, and
  \<open>allDone\<close> is false for it.
\<close>

theorem allDone_iff:
  "(allDone cs \<longleftrightarrow> cs \<noteq> [] \<and> (\<forall>x \<in> set cs. x = Hole \<or> x = Val True)) \<and>
   (allDone (map Val bs) \<longleftrightarrow> bs \<noteq> [] \<and> (\<forall>b \<in> set bs. b)) \<and>
   (original (instructions a) = [] \<longrightarrow>
      completedSteps (mount a l av) = [] \<and> \<not> allDone (completedSteps (mount a l av)))"
  by (simp add: allDone_def every_Val every_present mount_fields)

theorem allDone_iff_witness:
  "allDone (map Val [True, True]) \<and> \<not> allDone (map Val [True, False]) \<and> \<not> allDone (map Val []) \<and>
   original (instructions (exampleActivity (js ''45 mins'') [] [])) = [] \<and>
   \<not> allDone (completedSteps (mount (exampleActivity (js ''45 mins'') [] []) Original True))"
  using allDone_iff [of "[]" "[True, True]" "exampleActivity (js ''45 mins'') [] []" Original True]
        allDone_iff [of "[]" "[True, False]" "exampleActivity (js ''45 mins'') [] []" Original True]
        allDone_iff [of "[]" "[]" "exampleActivity (js ''45 mins'') [] []" Original True]
  by (simp add: exampleActivity_def both_def)

lemma array_get_Val: "i < length bs \<Longrightarrow> array_get (map Val bs) i = Val (bs ! i)"
  by (simp add: array_get_def)

lemma toggleStep_Val:
  "i < length bs \<Longrightarrow> toggleStep i (map Val bs) = map Val (bs[i := \<not> bs ! i])"
  by (simp add: toggleStep_def spread_Val array_get_Val array_set_def js_not_def map_update)

text \<open>
  Claim C9. On a completion sequence of booleans and an index within it, \<open>toggleStep\<close>
  applied twice gives the sequence back, and applied once it negates the element at the
  index and leaves the length and every other element as they were. The sequence of a
  mounted card has one boolean for each instruction of the original language, all false.
\<close>

theorem toggleStep_involution:
  assumes "i < length bs"
  shows "toggleStep i (toggleStep i (map Val bs)) = map Val bs \<and>
         toggleStep i (map Val bs) = map Val (bs[i := \<not> bs ! i]) \<and>
         length (toggleStep i (map Val bs)) = length bs \<and>
         (\<forall>j. j \<noteq> i \<longrightarrow> j < length bs \<longrightarrow> toggleStep i (map Val bs) ! j = Val (bs ! j)) \<and>
         completedSteps (mount a l av) = map Val (replicate (length (original (instructions a))) False)"
  using assms by (simp add: toggleStep_Val mount_fields)

theorem toggleStep_involution_witness:
  "(1::nat) < length [False, True, False] \<and>
   toggleStep 1 (toggleStep 1 (map Val [False, True, False])) = map Val [False, True, False] \<and>
   toggleStep 1 (map Val [False, True, False]) = map Val [False, False, False]"
proof -
  have h: "(1::nat) < length [False, True, False]" by simp
  note t = toggleStep_involution [OF h, of "exampleActivity [] [] []" Original True]
  from t have a: "toggleStep 1 (toggleStep 1 (map Val [False, True, False])) = map Val [False, True, False]"
    by (rule conjunct1)
  from t have "toggleStep 1 (map Val [False, True, False]) = map Val ([False, True, False][1 := \<not> [False, True, False] ! 1])"
    by blast
  then have b: "toggleStep 1 (map Val [False, True, False]) = map Val [False, False, False]"
    by simp
  from h a b show ?thesis by blast
qed

section \<open>Completing a mission\<close>

lemma pressFinish_not_done:
  "\<not> allDone (completedSteps c) \<Longrightarrow> pressFinish c = (None, c)"
  by (simp add: pressFinish_def finishButtonRendered_def)

text \<open>
  Claim C1. In a state of the card where \<open>allDone\<close> is false, whatever the photo,
  neither finish button is on the screen: a press gives no record to \<open>onComplete\<close>
  and leaves the card, the records in memory and the store as they are.
\<close>

theorem completeMission_rejected:
  assumes "\<not> allDone (completedSteps c)"
  shows "pressFinish (c\<lparr>successPhoto := p\<rparr>) = (None, c\<lparr>successPhoto := p\<rparr>) \<and>
         completeMission J rid now (w, c\<lparr>successPhoto := p\<rparr>) = (w, c\<lparr>successPhoto := p\<rparr>)"
  using assms by (simp add: completeMission_def pressFinish_not_done)

theorem completeMission_rejected_witness:
  "\<not> allDone (completedSteps ((mount (exampleActivity (js ''45 mins'') [js ''Look''] [js ''a leaf'']) Original True)
        \<lparr>isExpanded := True, mode := GUIDE\<rparr>)) \<and>
   completeMission \<lparr>stringify = (\<lambda>rs. js ''[]''), parse = (\<lambda>s. Inl SyntaxError)\<rparr> (js ''k3x9'') 1700000000000
     ((startApp Map.empty)\<lparr>appScreen := RESULTS, status := SUCCESS\<rparr>,
      (mount (exampleActivity (js ''45 mins'') [js ''Look''] [js ''a leaf'']) Original True)
        \<lparr>isExpanded := True, mode := GUIDE, successPhoto := Some (js ''data:image/png;base64,AAAA'')\<rparr>) =
     ((startApp Map.empty)\<lparr>appScreen := RESULTS, status := SUCCESS\<rparr>,
      (mount (exampleActivity (js ''45 mins'') [js ''Look''] [js ''a leaf'']) Original True)
        \<lparr>isExpanded := True, mode := GUIDE, successPhoto := Some (js ''data:image/png;base64,AAAA'')\<rparr>)"
proof -
  have h: "\<not> allDone (completedSteps ((mount (exampleActivity (js ''45 mins'') [js ''Look''] [js ''a leaf'']) Original True)
        \<lparr>isExpanded := True, mode := GUIDE\<rparr>))"
    by (simp add: mount_fields exampleActivity_def both_def allDone_def)
  from completeMission_rejected [OF h] h show ?thesis by simp
qed

subsection \<open>Duration\<close>

lemma bitlen_numeral:
  "bitlen (numeral (Num.Bit0 n)) = Suc (bitlen (numeral n))"
  "bitlen (numeral (Num.Bit1 n)) = Suc (bitlen (numeral n))"
  "bitlen (numeral Num.One) = Suc 0"
  "bitlen 1 = Suc 0"
  "bitlen (Suc 0) = Suc 0"
  "bitlen 0 = 0"
  by (subst bitlen.simps, simp)+

lemma bitlen_le_iff: "bitlen n \<le> k \<longleftrightarrow> n < 2 ^ k"
proof (induction k arbitrary: n)
  case 0
  show ?case by (subst bitlen.simps) simp
next
  case (Suc k)
  show ?case
  proof (cases "n = 0")
    case True
    then show ?thesis by (subst bitlen.simps) simp
  next
    case False
    have "bitlen n = Suc (bitlen (n div 2))" using False by (subst bitlen.simps) simp
    moreover have "n div 2 < 2 ^ k \<longleftrightarrow> n < 2 ^ Suc k" by auto
    ultimately show ?thesis using Suc.IH [of "n div 2"] by simp
  qed
qed

lemma toNumber_exact:
  assumes "n \<le> 2 ^ 53"
  shows "toNumber n = Fin n"
proof (cases "n < 2 ^ 53")
  case True
  then have "bitlen n \<le> 53" by (simp add: bitlen_le_iff)
  then show ?thesis by (simp add: toNumber_def)
next
  case False
  with assms have n: "n = 9007199254740992" by simp
  show ?thesis unfolding n by (simp add: toNumber_def bitlen_numeral Let_def)
qed

lemma matchDigits_none: "\<forall>ch \<in> set s. \<not> isDigit ch \<Longrightarrow> matchDigits s = None"
  by (induction s) auto

lemma matchDigits_run:
  assumes "\<forall>ch \<in> set pre. \<not> isDigit ch" "ds \<noteq> []" "\<forall>ch \<in> set ds. isDigit ch"
    "post = [] \<or> \<not> isDigit (hd post)"
  shows "matchDigits (pre @ ds @ post) = Some ds"
  using assms(1)
proof (induction pre)
  case Nil
  from assms(2) obtain x xs where ds: "ds = x # xs" by (cases ds) auto
  with assms(3) have x: "isDigit x" and xs: "\<forall>ch \<in> set xs. isDigit ch" by auto
  from assms(4) have "takeWhile isDigit (xs @ post) = xs"
    using xs by (cases post) (auto simp: takeWhile_append2 takeWhile_eq_all_conv)
  with x ds show ?case by simp
next
  case (Cons a pre)
  then show ?case by simp
qed

lemma parseInt_digits:
  "ds \<noteq> [] \<Longrightarrow> \<forall>ch \<in> set ds. isDigit ch \<Longrightarrow> parseInt ds = toNumber (digitsValue ds)"
  by (simp add: parseInt_def Let_def takeWhile_eq_all_conv [THEN iffD2])

lemma finishMission_duration:
  "durationMinutes (fst (finishMission c)) =
     (case matchDigits (pick (displayLanguage c) (duration (activity c))) of
        Some m \<Rightarrow> parseInt m | None \<Rightarrow> Fin 15)"
  by (simp add: finishMission_def Let_def)

text \<open>
  Claim C3, as amended. The duration of the record is 15 when the shown duration string
  has no digit. Otherwise it is the number nearest to the integer written by the first
  maximal run of decimal digits, and equals that integer whenever it is at most \<open>2^53\<close>.
\<close>

theorem duration_parsing:
  "((\<forall>ch \<in> set (pick (displayLanguage c) (duration (activity c))). \<not> isDigit ch) \<longrightarrow>
      durationMinutes (fst (finishMission c)) = Fin 15) \<and>
   (pick (displayLanguage c) (duration (activity c)) = pre @ ds @ post \<and>
    (\<forall>ch \<in> set pre. \<not> isDigit ch) \<and> ds \<noteq> [] \<and> (\<forall>ch \<in> set ds. isDigit ch) \<and>
    (post = [] \<or> \<not> isDigit (hd post)) \<longrightarrow>
      durationMinutes (fst (finishMission c)) = toNumber (digitsValue ds) \<and>
      (digitsValue ds \<le> 2 ^ 53 \<longrightarrow> durationMinutes (fst (finishMission c)) = Fin (digitsValue ds)))"
proof (intro conjI impI)
  assume "\<forall>ch \<in> set (pick (displayLanguage c) (duration (activity c))). \<not> isDigit ch"
  then show "durationMinutes (fst (finishMission c)) = Fin 15"
    by (simp add: finishMission_duration matchDigits_none)
next
  assume a: "pick (displayLanguage c) (duration (activity c)) = pre @ ds @ post \<and>
    (\<forall>ch \<in> set pre. \<not> isDigit ch) \<and> ds \<noteq> [] \<and> (\<forall>ch \<in> set ds. isDigit ch) \<and>
    (post = [] \<or> \<not> isDigit (hd post))"
  then have "matchDigits (pick (displayLanguage c) (duration (activity c))) = Some ds"
    by (simp add: matchDigits_run)
  with a show r: "durationMinutes (fst (finishMission c)) = toNumber (digitsValue ds)"
    by (simp add: finishMission_duration parseInt_digits)
  assume "digitsValue ds \<le> 2 ^ 53"
  with r show "durationMinutes (fst (finishMission c)) = Fin (digitsValue ds)"
    by (simp add: toNumber_exact)
qed

lemma example_duration:
  "pick (displayLanguage (mount (exampleActivity d steps ps) l av))
        (duration (activity (mount (exampleActivity d steps ps) l av))) = d"
  by (cases l) (simp_all add: mount_def initCompletedSteps_def Let_def exampleActivity_def both_def pick_def)

text \<open>
  The three examples of the claim: "About 15-20 minutes" gives 15, "Quick activity"
  gives 15 and "45 mins" gives 45.
\<close>

theorem duration_parsing_witness:
  "durationMinutes (fst (finishMission
      (mount (exampleActivity (js ''About 15-20 minutes'') [] []) Original True))) = Fin 15 \<and>
   durationMinutes (fst (finishMission
      (mount (exampleActivity (js ''Quick activity'') [] []) Original True))) = Fin 15 \<and>
   durationMinutes (fst (finishMission
      (mount (exampleActivity (js ''45 mins'') [] []) Original True))) = Fin 45"
proof -
  let ?c1 = "mount (exampleActivity (js ''About 15-20 minutes'') [] []) Original True"
  let ?c2 = "mount (exampleActivity (js ''Quick activity'') [] []) Original True"
  let ?c3 = "mount (exampleActivity (js ''45 mins'') [] []) Original True"
  have v1: "digitsValue (js ''15'') = 15" and v3: "digitsValue (js ''45'') = 45"
    by (simp_all add: digitsValue_def digitVal_def js_def)
  have h1: "pick (displayLanguage ?c1) (duration (activity ?c1)) = js ''About '' @ js ''15'' @ js ''-20 minutes'' \<and>
      (\<forall>ch \<in> set (js ''About ''). \<not> isDigit ch) \<and> js ''15'' \<noteq> [] \<and> (\<forall>ch \<in> set (js ''15''). isDigit ch) \<and>
      (js ''-20 minutes'' = [] \<or> \<not> isDigit (hd (js ''-20 minutes'')))"
    by (simp add: example_duration) (simp add: js_def isDigit_def)
  have h2: "\<forall>ch \<in> set (pick (displayLanguage ?c2) (duration (activity ?c2))). \<not> isDigit ch"
    by (simp add: example_duration) (simp add: js_def isDigit_def)
  have h3: "pick (displayLanguage ?c3) (duration (activity ?c3)) = [] @ js ''45'' @ js '' mins'' \<and>
      (\<forall>ch \<in> set []. \<not> isDigit ch) \<and> js ''45'' \<noteq> [] \<and> (\<forall>ch \<in> set (js ''45''). isDigit ch) \<and>
      (js '' mins'' = [] \<or> \<not> isDigit (hd (js '' mins'')))"
    by (simp add: example_duration) (simp add: js_def isDigit_def)
  from duration_parsing [of ?c1 "js ''About ''" "js ''15''" "js ''-20 minutes''"] h1
  have "digitsValue (js ''15'') \<le> 2 ^ 53 \<longrightarrow>
          durationMinutes (fst (finishMission ?c1)) = Fin (digitsValue (js ''15''))" by blast
  then have r1: "durationMinutes (fst (finishMission ?c1)) = Fin 15" unfolding v1 by simp
  from duration_parsing [of ?c2] h2
  have r2: "durationMinutes (fst (finishMission ?c2)) = Fin 15" by blast
  from duration_parsing [of ?c3 "[]" "js ''45''" "js '' mins''"] h3
  have "digitsValue (js ''45'') \<le> 2 ^ 53 \<longrightarrow>
          durationMinutes (fst (finishMission ?c3)) = Fin (digitsValue (js ''45''))" by blast
  then have r3: "durationMinutes (fst (finishMission ?c3)) = Fin 45" unfolding v3 by simp
  from r1 r2 r3 show ?thesis by blast
qed

text \<open>
  Claim C3 as stated fails for a long run of digits: the number read from
  "9007199254740993 mins" is 9007199254740992, since \<open>2^53 + 1\<close> is no double.
\<close>

theorem rounding_counterexample:
  "js ''9007199254740993 mins'' = [] @ js ''9007199254740993'' @ js '' mins'' \<and>
   digitsValue (js ''9007199254740993'') = 9007199254740993 \<and>
   durationMinutes (fst (finishMission
      (mount (exampleActivity (js ''9007199254740993 mins'') [] []) Original True))) =
     Fin 9007199254740992 \<and>
   durationMinutes (fst (finishMission
      (mount (exampleActivity (js ''9007199254740993 mins'') [] []) Original True))) \<noteq>
     Fin (digitsValue (js ''9007199254740993''))"
proof -
  have v: "digitsValue (js ''9007199254740993'') = 9007199254740993"
    by (simp add: digitsValue_def digitVal_def js_def)
  have m: "matchDigits (js ''9007199254740993 mins'') = Some (js ''9007199254740993'')"
    by (simp add: js_def isDigit_def)
  have p: "parseInt (js ''9007199254740993'') = toNumber (digitsValue (js ''9007199254740993''))"
    by (rule parseInt_digits) (simp_all add: js_def isDigit_def)
  have t: "toNumber 9007199254740993 = Fin 9007199254740992"
    by (simp add: toNumber_def bitlen_numeral Let_def)
  have "durationMinutes (fst (finishMission
      (mount (exampleActivity (js ''9007199254740993 mins'') [] []) Original True))) =
     Fin 9007199254740992"
    by (simp only: finishMission_duration example_duration m option.case p v t)
  with v show ?thesis by (simp add: js_def)
qed

section \<open>Narration\<close>

lemma narrations_inv:
  "length (narrations (run (mount a l av) es)) \<le> 1 \<and>
   (narrations (run (mount a l av) es) \<noteq> [] \<longrightarrow> isReading (run (mount a l av) es) \<noteq> None)"
proof (induction es rule: rev_induct)
  case Nil
  show ?case by (simp add: run_def mount_def initCompletedSteps_def Let_def)
next
  case (snoc e es)
  define s where "s = run (mount a l av) es"
  have run: "run (mount a l av) (es @ [e]) = step s e" by (simp add: run_def s_def)
  from snoc have inv: "length (narrations s) \<le> 1" "narrations s \<noteq> [] \<longrightarrow> isReading s \<noteq> None"
    by (simp_all add: s_def)
  have "length (narrations (step s e)) \<le> 1 \<and> (narrations (step s e) \<noteq> [] \<longrightarrow> isReading (step s e) \<noteq> None)"
  proof (cases e)
    case (Narrate idx)
    with inv show ?thesis by (auto simp: playNarration_def Let_def)
  next
    case (SpeechSettled k outcome)
    with inv show ?thesis
      by (cases "narrations s") (auto simp: speechSettled_def removeAt_def split: option.splits sum.splits)
  next
    case (PlaybackEnded k)
    with inv show ?thesis by (cases "narrations s") (auto simp: playbackEnded_def removeAt_def)
  next
    case BeginMission
    with inv show ?thesis
      by (auto simp: startGuiding_def nextPrompt_def Let_def split: list.splits)
  next
    case (ImageSettled k outcome)
    with inv show ?thesis
      by (auto simp: imageSettled_def nextPrompt_def Let_def split: list.splits option.splits)
  next
    case Finish
    with inv show ?thesis by (auto simp: pressFinish_def finishMission_def Let_def)
  qed (use inv in auto)
  with run show ?case by simp
qed

text \<open>
  Claim C6. While the index of the step being narrated is set, \<open>playNarration\<close> (and
  the press that calls it) changes nothing: the index stays and no speech request is sent.
  The index is cleared when the playback ends, when the speech request fails and when the
  audio cannot be decoded. In every state a card can reach, at most one narration is
  under way.
\<close>

theorem narration_exclusive:
  "(isReading c \<noteq> None \<longrightarrow> playNarration text i c = c \<and> step c (Narrate i) = c) \<and>
   (k < length (narrations c) \<and> narrations c ! k = Playing \<longrightarrow> isReading (playbackEnded k c) = None) \<and>
   (k < length (narrations c) \<and> narrations c ! k = AwaitingSpeech \<longrightarrow>
      isReading (speechSettled k None c) = None \<and>
      (decodeAudioData bytes = Inl e \<longrightarrow> isReading (speechSettled k (Some bytes) c) = None)) \<and>
   length (narrations (run (mount a l av) es)) \<le> 1"
  using narrations_inv [of a l av es]
  by (simp add: playNarration_def playbackEnded_def speechSettled_def)

theorem narration_exclusive_witness:
  "isReading (run (mount (exampleActivity (js ''45 mins'') [js ''Look'', js ''Draw''] []) Original True)
                  [Expand, BeginMission, Narrate 0]) = Some 0 \<and>
   step (run (mount (exampleActivity (js ''45 mins'') [js ''Look'', js ''Draw''] []) Original True)
             [Expand, BeginMission, Narrate 0]) (Narrate 1) =
     run (mount (exampleActivity (js ''45 mins'') [js ''Look'', js ''Draw''] []) Original True)
         [Expand, BeginMission, Narrate 0] \<and>
   isReading (speechSettled 0 None
     (run (mount (exampleActivity (js ''45 mins'') [js ''Look'', js ''Draw''] []) Original True)
          [Expand, BeginMission, Narrate 0])) = None \<and>
   isReading (speechSettled 0 (Some [7])
     (run (mount (exampleActivity (js ''45 mins'') [js ''Look'', js ''Draw''] []) Original True)
          [Expand, BeginMission, Narrate 0])) = None \<and>
   isReading (run (mount (exampleActivity (js ''45 mins'') [js ''Look'', js ''Draw''] []) Original True)
                  [Expand, BeginMission, Narrate 0, SpeechSettled 0 (Some [7, 1])]) = Some 0 \<and>
   isReading (playbackEnded 0
     (run (mount (exampleActivity (js ''45 mins'') [js ''Look'', js ''Draw''] []) Original True)
          [Expand, BeginMission, Narrate 0, SpeechSettled 0 (Some [7, 1])])) = None"
proof -
  let ?a = "exampleActivity (js ''45 mins'') [js ''Look'', js ''Draw''] []"
  let ?c = "run (mount ?a Original True) [Expand, BeginMission, Narrate 0]"
  let ?d = "run (mount ?a Original True) [Expand, BeginMission, Narrate 0, SpeechSettled 0 (Some [7, 1])]"
  have d: "?d = speechSettled 0 (Some [7, 1]) ?c" by (simp add: run_def)
  have c1: "isReading ?c = Some 0" and c2: "narrations ?c = [AwaitingSpeech]"
    by (simp_all add: run_def mount_def initCompletedSteps_def exampleActivity_def both_def
          startGuiding_def nextPrompt_def guideShown_def shownInstructions_def pick_def
          playNarration_def Let_def)
  have dec: "decodeAudioData [7] = Inl RangeError" by (simp add: decodeAudioData_def)
  have d1: "isReading ?d = Some 0" and d2: "narrations ?d = [Playing]"
    unfolding d using c1 c2 by (simp_all add: speechSettled_def decodeAudioData_def)
  from narration_exclusive [of ?c "js ''Draw''" 1 0 "[7]" RangeError ?a Original True "[]"] c1 c2 dec
  have A: "step ?c (Narrate 1) = ?c" "isReading (speechSettled 0 None ?c) = None"
    "isReading (speechSettled 0 (Some [7]) ?c) = None"
    by simp_all
  from narration_exclusive [of ?d "js ''Draw''" 1 0 "[7]" RangeError ?a Original True "[]"] d2
  have B: "isReading (playbackEnded 0 ?d) = None" by simp
  from c1 A d1 B show ?thesis by blast
qed

section \<open>Step images\<close>

lemma slotsOf_snoc: "slotsOf (os @ [outcome]) = slotsOf os @ [case outcome of None \<Rightarrow> [] | Some u \<Rightarrow> u]"
  by (simp add: slotsOf_def)

lemma publications_snoc:
  "publications (os @ [outcome]) =
     publications os @ (case outcome of None \<Rightarrow> [] | Some u \<Rightarrow> [slotsOf os @ [u]])"
  by (cases outcome) (simp_all add: publications_def prefixes_snoc slotsOf_snoc)

lemma image_loop:
  assumes fresh: "stepImages c = []" "\<not> loadingImages c" "imageTasks c = []"
    and len: "length os \<le> length (stepImagePrompts (activity c))"
  shows "imageRequests (run (startGuiding c) (map (ImageSettled 0) os)) =
           imageRequests c @ take (Suc (length os)) (stepImagePrompts (activity c)) \<and>
         published (run (startGuiding c) (map (ImageSettled 0) os)) = published c @ publications os \<and>
         stepImages (run (startGuiding c) (map (ImageSettled 0) os)) =
           (if publications os = [] then [] else last (publications os)) \<and>
         activity (run (startGuiding c) (map (ImageSettled 0) os)) = activity c \<and>
         (if length os < length (stepImagePrompts (activity c))
          then loadingImages (run (startGuiding c) (map (ImageSettled 0) os)) \<and>
               imageTasks (run (startGuiding c) (map (ImageSettled 0) os)) =
                 [\<lparr>images = slotsOf os, rest = drop (Suc (length os)) (stepImagePrompts (activity c))\<rparr>]
          else \<not> loadingImages (run (startGuiding c) (map (ImageSettled 0) os)) \<and>
               imageTasks (run (startGuiding c) (map (ImageSettled 0) os)) = [])"
  using len
proof (induction os rule: rev_induct)
  case Nil
  show ?case using fresh
    by (cases "stepImagePrompts (activity c)")
       (simp_all add: run_def startGuiding_def nextPrompt_def Let_def publications_def slotsOf_def)
next
  case (snoc outcome os)
  let ?ps = "stepImagePrompts (activity c)"
  let ?s = "run (startGuiding c) (map (ImageSettled 0) os)"
  from snoc.prems have lt: "length os < length ?ps" by simp
  with snoc.IH have
    rq: "imageRequests ?s = imageRequests c @ take (Suc (length os)) ?ps" and
    pb: "published ?s = published c @ publications os" and
    si: "stepImages ?s = (if publications os = [] then [] else last (publications os))" and
    ac: "activity ?s = activity c" and
    ld: "loadingImages ?s" and
    tk: "imageTasks ?s = [\<lparr>images = slotsOf os, rest = drop (Suc (length os)) ?ps\<rparr>]"
    by simp_all
  have r: "run (startGuiding c) (map (ImageSettled 0) (os @ [outcome])) = imageSettled 0 outcome ?s"
    by (simp add: run_def)
  show ?case
  proof (cases "Suc (length os) < length ?ps")
    case True
    then have d: "drop (Suc (length os)) ?ps = ?ps ! Suc (length os) # drop (Suc (Suc (length os))) ?ps"
      by (simp add: Cons_nth_drop_Suc)
    from True have t: "take (Suc (Suc (length os))) ?ps = take (Suc (length os)) ?ps @ [?ps ! Suc (length os)]"
      by (simp add: take_Suc_conv_app_nth)
    show ?thesis unfolding r using True
      by (cases outcome)
         (simp_all add: imageSettled_def nextPrompt_def Let_def rq pb si ac ld tk d t
            publications_snoc slotsOf_snoc)
  next
    case False
    with lt have e: "Suc (length os) = length ?ps" by simp
    then have d: "drop (Suc (length os)) ?ps = []" by simp
    show ?thesis unfolding r using e
      by (cases outcome)
         (simp_all add: imageSettled_def nextPrompt_def Let_def rq pb si ac ld tk d
            publications_snoc slotsOf_snoc)
  qed
qed

lemma imageSettled_idle: "imageTasks c = [] \<Longrightarrow> imageSettled k outcome c = c"
  by (simp add: imageSettled_def)

lemma generateStepImage_nonempty: "generateStepImage response = Some u \<Longrightarrow> u \<noteq> []"
  by (auto simp: generateStepImage_def js_def split: option.splits list.splits)

lemma stepImages_three_prompts:
  assumes "stepImages c = []" "\<not> loadingImages c" "imageTasks c = []"
    and "stepImagePrompts (activity c) = [p1, p2, p3]"
  shows "stepImages (run (startGuiding c) (map (ImageSettled 0) [Some u1, None, Some u3])) = [u1, [], u3] \<and>
         imageRequests (run (startGuiding c) (map (ImageSettled 0) [Some u1, None, Some u3])) =
           imageRequests c @ [p1, p2, p3] \<and>
         imageTasks (run (startGuiding c) (map (ImageSettled 0) [Some u1, None, Some u3])) = []"
proof -
  have len: "length [Some u1, None, Some u3] \<le> length (stepImagePrompts (activity c))"
    by (simp add: assms(4))
  have pub: "publications [Some u1, None, Some u3] = [[u1], [u1, [], u3]]"
    by (simp add: publications_def slotsOf_def)
  from image_loop [OF assms(1-3) len] show ?thesis
    unfolding pub by (simp add: assms(4))
qed

lemma example_card:
  "isExpanded (run (mount a l av) [Expand])" "stepImages (run (mount a l av) [Expand]) = []"
  "\<not> loadingImages (run (mount a l av) [Expand])" "imageTasks (run (mount a l av) [Expand]) = []"
  "activity (run (mount a l av) [Expand]) = a"
  "imageRequests (run (mount a l av) [Expand]) = []" "published (run (mount a l av) [Expand]) = []"
  by (simp_all add: run_def mount_def initCompletedSteps_def Let_def)

text \<open>
  Claim C4. From an opened card with no image and no fetch under way, "begin mission"
  followed by the answers to the first \<open>n\<close> requests leaves \<open>n + 1\<close> prompts
  requested, in the order of the list (all of them once every answer has come): each
  request waits for the answer to the one before. Every success publishes the array built
  so far, in which a failed call has left the empty string; a failure publishes nothing
  and does not stop the loop. After the last answer the loading flag is off, nothing is
  pending and a further answer changes nothing.
\<close>

theorem stepImages_sequential:
  assumes "isExpanded c" "stepImages c = []" "\<not> loadingImages c" "imageTasks c = []"
    and "length os \<le> length (stepImagePrompts (activity c))"
  shows "imageRequests (run c (BeginMission # map (ImageSettled 0) os)) =
           imageRequests c @ take (Suc (length os)) (stepImagePrompts (activity c)) \<and>
         published (run c (BeginMission # map (ImageSettled 0) os)) = published c @ publications os \<and>
         stepImages (run c (BeginMission # map (ImageSettled 0) os)) =
           (if publications os = [] then [] else last (publications os)) \<and>
         (length os < length (stepImagePrompts (activity c)) \<longrightarrow>
            loadingImages (run c (BeginMission # map (ImageSettled 0) os)) \<and>
            imageTasks (run c (BeginMission # map (ImageSettled 0) os)) =
              [\<lparr>images = slotsOf os, rest = drop (Suc (length os)) (stepImagePrompts (activity c))\<rparr>]) \<and>
         (length os = length (stepImagePrompts (activity c)) \<longrightarrow>
            \<not> loadingImages (run c (BeginMission # map (ImageSettled 0) os)) \<and>
            imageTasks (run c (BeginMission # map (ImageSettled 0) os)) = [] \<and>
            (\<forall>k outcome. step (run c (BeginMission # map (ImageSettled 0) os)) (ImageSettled k outcome) =
                           run c (BeginMission # map (ImageSettled 0) os)))"
proof -
  have r: "run c (BeginMission # map (ImageSettled 0) os) =
           run (startGuiding c) (map (ImageSettled 0) os)"
    using assms(1) by (simp add: run_def)
  note l = image_loop [OF assms(2-5)]
  show ?thesis unfolding r using l by (auto simp: imageSettled_idle)
qed

text \<open>
  Three prompts, the second call failing: the published sequence ends as three entries
  with the second empty, after exactly three requests.
\<close>

theorem stepImages_sequential_witness:
  "stepImages (run (mount (exampleActivity (js ''45 mins'') [js ''Look'', js ''Draw'', js ''Glue'']
                              [js ''leaf'', js ''pen'', js ''glue'']) Original True)
      ([Expand, BeginMission] @ map (ImageSettled 0)
         [generateStepImage (Some [Some (js ''AA'')]), generateStepImage None,
          generateStepImage (Some [None, Some (js ''BB'')])])) =
     [js ''data:image/png;base64,AA'', [], js ''data:image/png;base64,BB''] \<and>
   imageRequests (run (mount (exampleActivity (js ''45 mins'') [js ''Look'', js ''Draw'', js ''Glue'']
                              [js ''leaf'', js ''pen'', js ''glue'']) Original True)
      ([Expand, BeginMission] @ map (ImageSettled 0)
         [generateStepImage (Some [Some (js ''AA'')]), generateStepImage None,
          generateStepImage (Some [None, Some (js ''BB'')])])) =
     [js ''leaf'', js ''pen'', js ''glue''] \<and>
   published (run (mount (exampleActivity (js ''45 mins'') [js ''Look'', js ''Draw'', js ''Glue'']
                              [js ''leaf'', js ''pen'', js ''glue'']) Original True)
      ([Expand, BeginMission] @ map (ImageSettled 0)
         [generateStepImage (Some [Some (js ''AA'')]), generateStepImage None,
          generateStepImage (Some [None, Some (js ''BB'')])])) =
     [[js ''data:image/png;base64,AA''],
      [js ''data:image/png;base64,AA'', [], js ''data:image/png;base64,BB'']] \<and>
   \<not> loadingImages (run (mount (exampleActivity (js ''45 mins'') [js ''Look'', js ''Draw'', js ''Glue'']
                              [js ''leaf'', js ''pen'', js ''glue'']) Original True)
      ([Expand, BeginMission] @ map (ImageSettled 0)
         [generateStepImage (Some [Some (js ''AA'')]), generateStepImage None,
          generateStepImage (Some [None, Some (js ''BB'')])])) \<and>
   imageRequests (run (mount (exampleActivity (js ''45 mins'') [js ''Look'', js ''Draw'', js ''Glue'']
                              [js ''leaf'', js ''pen'', js ''glue'']) Original True)
      ([Expand, BeginMission] @ map (ImageSettled 0) [None])) = [js ''leaf'', js ''pen''] \<and>
   loadingImages (run (mount (exampleActivity (js ''45 mins'') [js ''Look'', js ''Draw'', js ''Glue'']
                              [js ''leaf'', js ''pen'', js ''glue'']) Original True)
      ([Expand, BeginMission] @ map (ImageSettled 0) [None]))"
proof -
  let ?a = "exampleActivity (js ''45 mins'') [js ''Look'', js ''Draw'', js ''Glue'']
              [js ''leaf'', js ''pen'', js ''glue'']"
  let ?os = "[generateStepImage (Some [Some (js ''AA'')]), generateStepImage None,
              generateStepImage (Some [None, Some (js ''BB'')])]"
  let ?c = "run (mount ?a Original True) [Expand]"
  have r: "run (mount ?a Original True) ([Expand, BeginMission] @ map (ImageSettled 0) os) =
           run ?c (BeginMission # map (ImageSettled 0) os)" for os
    by (simp add: run_def)
  have ps: "stepImagePrompts (activity ?c) = [js ''leaf'', js ''pen'', js ''glue'']"
    by (simp add: example_card exampleActivity_def)
  have os: "?os = [Some (js ''data:image/png;base64,AA''), None, Some (js ''data:image/png;base64,BB'')]"
    by (simp add: generateStepImage_def List.map_filter_def js_def)
  have pub: "publications ?os = [[js ''data:image/png;base64,AA''],
      [js ''data:image/png;base64,AA'', [], js ''data:image/png;base64,BB'']]"
    unfolding os by (simp add: publications_def slotsOf_def)
  have len: "length ?os \<le> length (stepImagePrompts (activity ?c))"
    unfolding ps by simp
  have len1: "length [None :: jsstring option] \<le> length (stepImagePrompts (activity ?c))"
    unfolding ps by simp
  note t = stepImages_sequential [OF example_card(1-4) len]
  note t1 = stepImages_sequential [OF example_card(1-4) len1]
  from t have "stepImages (run ?c (BeginMission # map (ImageSettled 0) ?os)) =
       (if publications ?os = [] then [] else last (publications ?os))"
    and "imageRequests (run ?c (BeginMission # map (ImageSettled 0) ?os)) =
           imageRequests ?c @ take (Suc (length ?os)) (stepImagePrompts (activity ?c))"
    and "published (run ?c (BeginMission # map (ImageSettled 0) ?os)) = published ?c @ publications ?os"
    and "length ?os = length (stepImagePrompts (activity ?c)) \<longrightarrow>
            \<not> loadingImages (run ?c (BeginMission # map (ImageSettled 0) ?os))"
    by blast+
  then have A: "stepImages (run ?c (BeginMission # map (ImageSettled 0) ?os)) =
       [js ''data:image/png;base64,AA'', [], js ''data:image/png;base64,BB'']"
    "imageRequests (run ?c (BeginMission # map (ImageSettled 0) ?os)) = [js ''leaf'', js ''pen'', js ''glue'']"
    "published (run ?c (BeginMission # map (ImageSettled 0) ?os)) = [[js ''data:image/png;base64,AA''],
      [js ''data:image/png;base64,AA'', [], js ''data:image/png;base64,BB'']]"
    "\<not> loadingImages (run ?c (BeginMission # map (ImageSettled 0) ?os))"
    unfolding pub ps by (simp_all add: example_card)
  from t1 have "imageRequests (run ?c (BeginMission # map (ImageSettled 0) [None])) =
           imageRequests ?c @ take (Suc (length [None :: jsstring option])) (stepImagePrompts (activity ?c))"
    and "length [None :: jsstring option] < length (stepImagePrompts (activity ?c)) \<longrightarrow>
            loadingImages (run ?c (BeginMission # map (ImageSettled 0) [None]))"
    by blast+
  then have B: "imageRequests (run ?c (BeginMission # map (ImageSettled 0) [None])) = [js ''leaf'', js ''pen'']"
    "loadingImages (run ?c (BeginMission # map (ImageSettled 0) [None]))"
    unfolding ps by (simp_all add: example_card)
  from A B show ?thesis unfolding r by blast
qed

lemma imageTasks_inv:
  "length (imageTasks (run (mount a l av) es)) \<le> 1 \<and>
   (imageTasks (run (mount a l av) es) \<noteq> [] \<longrightarrow> loadingImages (run (mount a l av) es))"
proof (induction es rule: rev_induct)
  case Nil
  show ?case by (simp add: run_def mount_def initCompletedSteps_def Let_def)
next
  case (snoc e es)
  define s where "s = run (mount a l av) es"
  have run: "run (mount a l av) (es @ [e]) = step s e" by (simp add: run_def s_def)
  from snoc have inv: "length (imageTasks s) \<le> 1" "imageTasks s \<noteq> [] \<longrightarrow> loadingImages s"
    by (simp_all add: s_def)
  have "length (imageTasks (step s e)) \<le> 1 \<and> (imageTasks (step s e) \<noteq> [] \<longrightarrow> loadingImages (step s e))"
  proof (cases e)
    case (Narrate idx)
    with inv show ?thesis by (auto simp: playNarration_def Let_def)
  next
    case (SpeechSettled k outcome)
    with inv show ?thesis
      by (auto simp: speechSettled_def split: option.splits sum.splits)
  next
    case (PlaybackEnded k)
    with inv show ?thesis by (auto simp: playbackEnded_def)
  next
    case BeginMission
    with inv show ?thesis
      by (auto simp: startGuiding_def nextPrompt_def Let_def split: list.splits)
  next
    case (ImageSettled k outcome)
    with inv show ?thesis
      by (cases "imageTasks s")
         (auto simp: imageSettled_def nextPrompt_def Let_def split: list.splits option.splits)
  next
    case Finish
    with inv show ?thesis by (auto simp: pressFinish_def finishMission_def Let_def)
  qed (use inv in auto)
  with run show ?case by simp
qed

lemma activity_step: "activity (step c e) = activity c"
proof (cases e)
  case BeginMission
  then show ?thesis
    by (auto simp: startGuiding_def nextPrompt_def Let_def split: list.splits)
next
  case (ImageSettled k outcome)
  then show ?thesis
    by (auto simp: imageSettled_def nextPrompt_def Let_def split: list.splits option.splits)
next
  case (Narrate idx)
  then show ?thesis by (auto simp: playNarration_def Let_def)
next
  case (SpeechSettled k outcome)
  then show ?thesis by (auto simp: speechSettled_def split: option.splits sum.splits)
next
  case (PlaybackEnded k)
  then show ?thesis by (auto simp: playbackEnded_def)
next
  case Finish
  then show ?thesis by (auto simp: pressFinish_def finishMission_def Let_def)
qed auto

lemma activity_inv: "activity (run (mount a l av) es) = a"
proof (induction es rule: rev_induct)
  case Nil
  show ?case by (simp add: run_def mount_def initCompletedSteps_def Let_def)
next
  case (snoc e es)
  then show ?case by (simp add: run_def activity_step)
qed

lemma startGuiding_blocked:
  "loadingImages c \<or> stepImages c \<noteq> [] \<Longrightarrow> startGuiding c = c\<lparr>mode := GUIDE\<rparr>"
  by (auto simp: startGuiding_def Let_def)

text \<open>
  Claim C5, as amended. In every state a card can reach, "begin mission" sends no image
  request, starts no second invocation and publishes nothing while an invocation is
  suspended or the loading flag is set, nor once the published sequence is not empty;
  and it never sends a request for an activity without prompts.
\<close>

theorem startGuiding_guarded:
  "(imageTasks (run (mount a l av) es) \<noteq> [] \<or> loadingImages (run (mount a l av) es) \<or>
    stepImages (run (mount a l av) es) \<noteq> [] \<longrightarrow>
     imageRequests (step (run (mount a l av) es) BeginMission) = imageRequests (run (mount a l av) es) \<and>
     imageTasks (step (run (mount a l av) es) BeginMission) = imageTasks (run (mount a l av) es) \<and>
     published (step (run (mount a l av) es) BeginMission) = published (run (mount a l av) es) \<and>
     stepImages (step (run (mount a l av) es) BeginMission) = stepImages (run (mount a l av) es)) \<and>
   (stepImagePrompts a = [] \<longrightarrow>
     imageRequests (step (run (mount a l av) es) BeginMission) = imageRequests (run (mount a l av) es))"
proof (intro conjI impI)
  let ?s = "run (mount a l av) es"
  assume "imageTasks ?s \<noteq> [] \<or> loadingImages ?s \<or> stepImages ?s \<noteq> []"
  with imageTasks_inv [of a l av es] have "loadingImages ?s \<or> stepImages ?s \<noteq> []" by blast
  then have g: "startGuiding ?s = ?s\<lparr>mode := GUIDE\<rparr>" by (rule startGuiding_blocked)
  from g show "imageRequests (step ?s BeginMission) = imageRequests ?s" by simp
  from g show "imageTasks (step ?s BeginMission) = imageTasks ?s" by simp
  from g show "published (step ?s BeginMission) = published ?s" by simp
  from g show "stepImages (step ?s BeginMission) = stepImages ?s" by simp
next
  let ?s = "run (mount a l av) es"
  assume "stepImagePrompts a = []"
  then have "stepImagePrompts (activity ?s) = []" by (simp add: activity_inv)
  then show "imageRequests (step ?s BeginMission) = imageRequests ?s"
    by (simp add: startGuiding_def nextPrompt_def Let_def)
qed

theorem startGuiding_guarded_witness:
  "imageTasks (run (mount (exampleActivity (js ''45 mins'') [js ''Look'', js ''Draw''] [js ''leaf'', js ''pen'']) Original True)
                   [Expand, BeginMission]) \<noteq> [] \<and>
   imageRequests (step (run (mount (exampleActivity (js ''45 mins'') [js ''Look'', js ''Draw''] [js ''leaf'', js ''pen'']) Original True)
                   [Expand, BeginMission]) BeginMission) = [js ''leaf''] \<and>
   stepImages (run (mount (exampleActivity (js ''45 mins'') [js ''Look'', js ''Draw''] [js ''leaf'', js ''pen'']) Original True)
                   [Expand, BeginMission, ImageSettled 0 (Some (js ''u'')), ImageSettled 0 None, ShowPrep]) \<noteq> [] \<and>
   imageRequests (step (run (mount (exampleActivity (js ''45 mins'') [js ''Look'', js ''Draw''] [js ''leaf'', js ''pen'']) Original True)
                   [Expand, BeginMission, ImageSettled 0 (Some (js ''u'')), ImageSettled 0 None, ShowPrep]) BeginMission) =
     [js ''leaf'', js ''pen'']"
proof -
  let ?a = "exampleActivity (js ''45 mins'') [js ''Look'', js ''Draw''] [js ''leaf'', js ''pen'']"
  let ?e1 = "[Expand, BeginMission]"
  let ?e2 = "[Expand, BeginMission, ImageSettled 0 (Some (js ''u'')), ImageSettled 0 None, ShowPrep]"
  have a1: "imageTasks (run (mount ?a Original True) ?e1) \<noteq> []"
    and a2: "imageRequests (run (mount ?a Original True) ?e1) = [js ''leaf'']"
    by (simp_all add: run_def mount_def initCompletedSteps_def exampleActivity_def both_def
        startGuiding_def nextPrompt_def Let_def)
  have b1: "stepImages (run (mount ?a Original True) ?e2) \<noteq> []"
    and b2: "imageRequests (run (mount ?a Original True) ?e2) = [js ''leaf'', js ''pen'']"
    by (simp_all add: run_def mount_def initCompletedSteps_def exampleActivity_def both_def
        startGuiding_def nextPrompt_def imageSettled_def Let_def)
  from startGuiding_guarded [of ?a Original True ?e1] a1 a2
  have r1: "imageRequests (step (run (mount ?a Original True) ?e1) BeginMission) = [js ''leaf'']"
    by simp
  from startGuiding_guarded [of ?a Original True ?e2] b1 b2
  have r2: "imageRequests (step (run (mount ?a Original True) ?e2) BeginMission) = [js ''leaf'', js ''pen'']"
    by simp
  from a1 r1 b1 r2 show ?thesis by blast
qed

text \<open>
  Claim C5 as stated fails when every call has failed: nothing was published, the
  sequence is still empty, and the next "begin mission" sends the request again.
\<close>

theorem refetch_counterexample:
  "imageRequests (run (mount (exampleActivity (js ''45 mins'') [js ''Look''] [js ''leaf'']) Original True)
                      [Expand, BeginMission, ImageSettled 0 None]) = [js ''leaf''] \<and>
   imageTasks (run (mount (exampleActivity (js ''45 mins'') [js ''Look''] [js ''leaf'']) Original True)
                      [Expand, BeginMission, ImageSettled 0 None]) = [] \<and>
   imageRequests (step (run (mount (exampleActivity (js ''45 mins'') [js ''Look''] [js ''leaf'']) Original True)
                      [Expand, BeginMission, ImageSettled 0 None]) BeginMission) =
     [js ''leaf'', js ''leaf'']"
  by (simp add: run_def mount_def initCompletedSteps_def exampleActivity_def both_def
        startGuiding_def nextPrompt_def imageSettled_def Let_def)

section \<open>JSON\<close>

subsection \<open>Decimal numerals\<close>

lemma unat_digit: "d < 10 \<Longrightarrow> unat (digitChar d) = 48 + d"
  unfolding digitChar_def by (subst unat_of_nat) simp

lemma isDigit_unat: "isDigit c \<longleftrightarrow> 48 \<le> unat c \<and> unat c \<le> 57"
  by (simp add: isDigit_def word_le_nat_alt)

lemma isDigit_digit: "d < 10 \<Longrightarrow> isDigit (digitChar d)"
  by (simp add: isDigit_unat unat_digit)

lemma digitVal_digit: "d < 10 \<Longrightarrow> digitVal (digitChar d) = d"
  by (simp add: digitVal_def unat_digit)

lemma digit_eq_zero: "d < 10 \<Longrightarrow> digitChar d = 0x30 \<longleftrightarrow> d = 0"
proof
  assume d: "d < 10" and "digitChar d = 0x30"
  then have "unat (digitChar d) = unat (0x30 :: jschar)" by simp
  with d show "d = 0" by (simp add: unat_digit)
qed (simp add: digitChar_def)

lemma dec_nonempty: "dec n \<noteq> []"
  by (subst dec.simps) simp

lemma dec_digits: "\<forall>c \<in> set (dec n). isDigit c"
proof (induction n rule: dec.induct)
  case (1 n)
  show ?case
  proof (cases "n < 10")
    case True
    then show ?thesis by (subst dec.simps) (simp add: isDigit_digit)
  next
    case False
    with 1 have "\<forall>c \<in> set (dec (n div 10)). isDigit c" by simp
    with False show ?thesis by (subst dec.simps) (simp add: isDigit_digit)
  qed
qed

lemma digitsValue_snoc: "digitsValue (ds @ [c]) = 10 * digitsValue ds + digitVal c"
  by (simp add: digitsValue_def)

lemma digitsValue_append:
  "digitsValue (xs @ ys) = digitsValue xs * 10 ^ length ys + digitsValue ys"
proof (induction ys rule: rev_induct)
  case Nil
  show ?case by (simp add: digitsValue_def)
next
  case (snoc y ys)
  have "digitsValue (xs @ ys @ [y]) = 10 * digitsValue (xs @ ys) + digitVal y"
    using digitsValue_snoc [of "xs @ ys" y] by simp
  with snoc show ?case by (simp add: digitsValue_snoc algebra_simps)
qed

lemma digitsValue_dec: "digitsValue (dec n) = n"
proof (induction n rule: dec.induct)
  case (1 n)
  show ?case
  proof (cases "n < 10")
    case True
    then show ?thesis by (subst dec.simps) (simp add: digitsValue_def digitVal_digit)
  next
    case False
    with 1 have "digitsValue (dec (n div 10)) = n div 10" by simp
    with False show ?thesis
      by (subst dec.simps) (simp add: digitsValue_snoc digitVal_digit)
  qed
qed

lemma digitsValue_zeros: "digitsValue (replicate e 0x30) = 0"
proof (induction e)
  case 0
  show ?case by (simp add: digitsValue_def)
next
  case (Suc e)
  have "replicate (Suc e) (0x30 :: jschar) = replicate e 0x30 @ [0x30]"
    by (simp add: replicate_append_same)
  with Suc show ?case by (simp only: digitsValue_snoc) (simp add: digitVal_def)
qed

lemma digitsValue_pad: "digitsValue (ds @ replicate e 0x30) = digitsValue ds * 10 ^ e"
  by (simp add: digitsValue_append digitsValue_zeros)

lemma hd_dec: "0 < n \<Longrightarrow> hd (dec n) \<noteq> 0x30"
proof (induction n rule: dec.induct)
  case (1 n)
  show ?case
  proof (cases "n < 10")
    case True
    with 1(2) show ?thesis by (subst dec.simps) (simp add: digit_eq_zero)
  next
    case False
    with 1 have "hd (dec (n div 10)) \<noteq> 0x30" by simp
    with False show ?thesis by (subst dec.simps) (simp add: dec_nonempty)
  qed
qed

lemma dec_zero: "dec 0 = [0x30]"
  by (subst dec.simps) (simp add: digitChar_def)

lemma best_in: "cs \<noteq> [] \<Longrightarrow> best v cs \<in> set cs"
proof -
  have "foldl (\<lambda>b c. if better v c b then c else b) b xs \<in> insert b (set xs)" for b xs
    by (induction xs arbitrary: b) auto
  from this [of "hd cs" "tl cs"] show "cs \<noteq> [] \<Longrightarrow> best v cs \<in> set cs"
    by (cases cs) (auto simp: best_def)
qed

lemma shortest_cases:
  "shortest v = (v, 0) \<or>
   (\<exists>k. shortest v \<in> set (candidates v (length (dec v)) k))"
proof (cases "List.find (\<lambda>k. candidates v (length (dec v)) k \<noteq> []) [1..<Suc (length (dec v))]")
  case None
  then show ?thesis by (simp add: shortest_def)
next
  case (Some k)
  then have ne: "candidates v (length (dec v)) k \<noteq> []"
    by (auto simp: find_Some_iff)
  from Some have "shortest v = best v (candidates v (length (dec v)) k)"
    by (simp add: shortest_def)
  with best_in [OF ne] show ?thesis by auto
qed

lemma shortest_pos: "0 < v \<Longrightarrow> 0 < fst (shortest v)"
proof -
  assume v: "0 < v"
  from shortest_cases [of v] show ?thesis
  proof
    assume "shortest v = (v, 0)"
    with v show ?thesis by simp
  next
    assume "\<exists>k. shortest v \<in> set (candidates v (length (dec v)) k)"
    then obtain k where "shortest v \<in> set (candidates v (length (dec v)) k)" ..
    then have "10 ^ (k - 1) \<le> fst (shortest v)"
      unfolding candidates_def set_filter by blast
    moreover have "(0::nat) < 10 ^ (k - 1)" by simp
    ultimately show ?thesis by linarith
  qed
qed

lemma shortest_valid:
  assumes "toNumber v = Fin v"
  shows "toNumber (fst (shortest v) * 10 ^ snd (shortest v)) = Fin v"
proof -
  from shortest_cases [of v] show ?thesis
  proof
    assume "shortest v = (v, 0)"
    with assms show ?thesis by simp
  next
    assume "\<exists>k. shortest v \<in> set (candidates v (length (dec v)) k)"
    then obtain k where "shortest v \<in> set (candidates v (length (dec v)) k)" ..
    then show ?thesis unfolding candidates_def set_filter by blast
  qed
qed

subsection \<open>Reading a written number\<close>

lemma delimiter_facts:
  assumes "delimiter c"
  shows "\<not> isDigit c" "c \<noteq> 0x2E" "c \<noteq> 0x65" "c \<noteq> 0x45" "\<not> isJsonWs c"
  using assms by (auto simp: delimiter_def isDigit_def isJsonWs_def)

lemma digit_facts:
  assumes "isDigit c"
  shows "c \<noteq> 0x2D" "c \<noteq> 0x2E" "c \<noteq> 0x65" "c \<noteq> 0x45" "c \<noteq> 0x2B"
    "c \<noteq> 0x5B" "c \<noteq> 0x7B" "c \<noteq> 0x22" "c \<noteq> 0x6E" "c \<noteq> 0x74" "c \<noteq> 0x66"
  using assms by (auto simp: isDigit_def)

lemma takeWhile_digits:
  assumes "\<forall>c \<in> set ds. isDigit c" "\<not> isDigit x"
  shows "takeWhile isDigit (ds @ x # r) = ds" "dropWhile isDigit (ds @ x # r) = x # r"
  using assms by (simp_all add: takeWhile_append2 dropWhile_append2)

lemma parseNumber_plain:
  assumes ds: "ds \<noteq> []" "\<forall>c \<in> set ds. isDigit c" "hd ds \<noteq> 0x30 \<or> length ds = 1"
    and c: "delimiter c"
  shows "parseNumber (ds @ c # post) = Some (JNumber False (digitsValue ds) 0, c # post)"
proof -
  from ds have h: "hd (ds @ c # post) = hd ds" "isDigit (hd ds)" by (cases ds; simp)+
  then have neg: "\<not> ((ds @ c # post) \<noteq> [] \<and> hd (ds @ c # post) = 0x2D)"
    using digit_facts(1) by auto
  note tw = takeWhile_digits [OF ds(2) delimiter_facts(1) [OF c], of post]
  from ds(3) have lz: "\<not> (hd ds = 0x30 \<and> 1 < length ds)" by auto
  show ?thesis
    unfolding parseNumber_def Let_def
    using neg ds(1) lz delimiter_facts [OF c]
    by (simp add: tw parseFraction_def parseExponent_def mkNumber_def)
qed

lemma parseExponent_plus:
  assumes c: "delimiter c"
  shows "parseExponent (0x65 # 0x2B # dec E @ c # post) = Some (int E, c # post)"
proof -
  note tw = takeWhile_digits [OF dec_digits delimiter_facts(1) [OF c], of E post]
  show ?thesis
    unfolding parseExponent_def Let_def
    by (simp add: tw dec_nonempty digitsValue_dec)
qed

lemma nondigits [simp]:
  "\<not> isDigit (0x65 :: jschar)" "\<not> isDigit (0x2E :: jschar)" "\<not> isDigit (0x2B :: jschar)"
  "\<not> isDigit (0x2D :: jschar)"
  by (simp_all add: isDigit_def)

lemma parseNumber_exponent:
  assumes d: "isDigit d" and fs: "\<forall>c \<in> set fs. isDigit c"
    and c: "delimiter c" and E: "length fs \<le> E"
  shows "parseNumber (d # (if fs = [] then [] else 0x2E # fs) @ [0x65, 0x2B] @ dec E @ c # post) =
           Some (JNumber False (digitsValue (d # fs) * 10 ^ (E - length fs)) 0, c # post)"
proof (cases "fs = []")
  case True
  show ?thesis
    unfolding parseNumber_def Let_def
    using True d digit_facts(1) [OF d]
    by (simp add: parseFraction_def parseExponent_plus [OF c] mkNumber_def)
next
  case False
  note tf = takeWhile_digits [OF fs nondigits(1), of "0x2B # dec E @ c # post"]
  have m: "mkNumber False (digitsValue (d # fs)) (int E - int (length fs)) =
           JNumber False (digitsValue (d # fs) * 10 ^ (E - length fs)) 0"
    using E by (simp add: mkNumber_def nat_diff_distrib')
  have pf: "parseFraction (0x2E # fs @ 0x65 # 0x2B # dec E @ c # post) =
              Some (fs, 0x65 # 0x2B # dec E @ c # post)"
    using False by (simp add: parseFraction_def tf)
  show ?thesis
    unfolding parseNumber_def Let_def
    using False d digit_facts(1) [OF d]
    by (simp add: pf parseExponent_plus [OF c] m)
qed

lemma parseNumber_numberToString:
  assumes c: "delimiter c"
  shows "parseNumber (numberToString v @ c # post) = Some (JNumber False (literalValue v) 0, c # post)"
proof (cases "v = 0")
  case True
  have "parseNumber ([0x30] @ c # post) = Some (JNumber False (digitsValue [0x30]) 0, c # post)"
    by (rule parseNumber_plain [OF _ _ _ c]) (simp_all add: isDigit_def)
  with True show ?thesis
    by (simp add: numberToString_def literalValue_def digitsValue_def digitVal_def)
next
  case False
  let ?s = "fst (shortest v)" and ?e = "snd (shortest v)"
  from False have s: "0 < ?s" by (simp add: shortest_pos)
  let ?ds = "dec ?s"
  show ?thesis
  proof (cases "length ?ds + ?e \<le> 21")
    case True
    have "parseNumber ((?ds @ replicate ?e 0x30) @ c # post) =
            Some (JNumber False (digitsValue (?ds @ replicate ?e 0x30)) 0, c # post)"
    proof (rule parseNumber_plain [OF _ _ _ c])
      show "?ds @ replicate ?e 0x30 \<noteq> []" by (simp add: dec_nonempty)
      show "\<forall>c \<in> set (?ds @ replicate ?e 0x30). isDigit c"
        using dec_digits [of ?s] by (auto simp: isDigit_def)
      show "hd (?ds @ replicate ?e 0x30) \<noteq> 0x30 \<or> length (?ds @ replicate ?e 0x30) = 1"
        using hd_dec [OF s] by (simp add: dec_nonempty)
    qed
    with True False show ?thesis
      by (simp add: numberToString_def literalValue_def Let_def digitsValue_pad digitsValue_dec)
  next
    case False
    note big = this
    obtain d fs where dfs: "?ds = d # fs" using dec_nonempty [of ?s] by (cases ?ds) auto
    with dec_digits [of ?s] have d: "isDigit d" and fs: "\<forall>c \<in> set fs. isDigit c" by auto
    have "parseNumber (d # (if fs = [] then [] else 0x2E # fs) @ [0x65, 0x2B] @
            dec (length fs + ?e) @ c # post) =
          Some (JNumber False (digitsValue (d # fs) * 10 ^ ((length fs + ?e) - length fs)) 0, c # post)"
      by (rule parseNumber_exponent [OF d fs c]) simp
    moreover have "digitsValue (d # fs) = ?s" using digitsValue_dec [of ?s] dfs by simp
    ultimately show ?thesis using big \<open>v \<noteq> 0\<close> dfs
      by (cases "fs = []") (simp_all add: numberToString_def literalValue_def Let_def)
  qed
qed

lemma numberToString_hd: "numberToString v \<noteq> [] \<and> isDigit (hd (numberToString v))"
proof (cases "v = 0")
  case True
  then show ?thesis by (simp add: numberToString_def isDigit_def)
next
  case False
  let ?ds = "dec (fst (shortest v))"
  have "?ds \<noteq> []" by (rule dec_nonempty)
  moreover have "isDigit (hd ?ds)" using dec_digits [of "fst (shortest v)"] dec_nonempty [of "fst (shortest v)"]
    by (cases ?ds) auto
  ultimately show ?thesis using False
    by (simp add: numberToString_def Let_def)
qed

lemma parseNumber_negative:
  assumes c: "delimiter c"
  shows "parseNumber (0x2D # numberToString v @ c # post) = Some (JNumber True (literalValue v) 0, c # post)"
proof -
  from parseNumber_numberToString [OF c, of v post] numberToString_hd [of v]
  show ?thesis
    unfolding parseNumber_def Let_def
    by (cases "numberToString v") (auto simp: mkNumber_def dest: digit_facts(1) split: if_splits option.splits prod.splits)
qed

subsection \<open>Reading a written string\<close>

lemma unat_hexDigit:
  assumes "n < 16"
  shows "unat (hexDigit n) = (if n < 10 then 48 + n else 87 + n)"
proof (cases "n < 10")
  case True
  then have "unat (of_nat (48 + n) :: jschar) = 48 + n" by (subst unat_of_nat) simp
  with True show ?thesis by (simp only: hexDigit_def if_True)
next
  case False
  with assms have "unat (of_nat (87 + n) :: jschar) = 87 + n" by (subst unat_of_nat) simp
  with False show ?thesis by (simp only: hexDigit_def if_False)
qed

lemma hexVal_hexDigit: "n < 16 \<Longrightarrow> hexVal (hexDigit n) = Some n"
  using unat_hexDigit [of n] by (auto simp: hexVal_def word_le_nat_alt)

lemma hex_value: "((u div 4096 * 16 + u div 256 mod 16) * 16 + u div 16 mod 16) * 16 + u mod 16 = (u::nat)"
proof -
  have a: "u div 256 = u div 16 div 16" using div_mult2_eq [of u 16 16] by simp
  have b: "u div 4096 = u div 256 div 16" using div_mult2_eq [of u 256 16] by simp
  have "u div 4096 * 16 + u div 256 mod 16 = u div 256" unfolding b by (rule div_mult_mod_eq)
  moreover have "u div 256 * 16 + u div 16 mod 16 = u div 16" unfolding a by (rule div_mult_mod_eq)
  moreover have "u div 16 * 16 + u mod 16 = u" by (rule div_mult_mod_eq)
  ultimately show ?thesis by (simp only:)
qed

lemma unhex4_hex4: "(case hex4 c of [a, b, x, y] \<Rightarrow> unhex4 a b x y | _ \<Rightarrow> None) = Some c"
proof -
  define u where "u = unat c"
  have u: "u < 65536" using unsigned_less [of c, where ?'a = nat] by (simp add: u_def)
  have h: "hexVal (hexDigit (u div 4096)) = Some (u div 4096)"
    "hexVal (hexDigit (u div 256 mod 16)) = Some (u div 256 mod 16)"
    "hexVal (hexDigit (u div 16 mod 16)) = Some (u div 16 mod 16)"
    "hexVal (hexDigit (u mod 16)) = Some (u mod 16)"
    using u by (simp_all add: hexVal_hexDigit)
  have "unhex4 (hexDigit (u div 4096)) (hexDigit (u div 256 mod 16))
          (hexDigit (u div 16 mod 16)) (hexDigit (u mod 16)) = Some (of_nat u)"
    unfolding unhex4_def h by (simp only: Option.bind.simps hex_value)
  moreover have "of_nat u = c" by (simp add: u_def)
  ultimately show ?thesis
    by (simp only: hex4_def Let_def u_def [symmetric] list.case)
qed

lemma parseChars_hex: "parseChars (0x5C # 0x75 # hex4 c @ t) = consChar c (parseChars t)"
proof -
  obtain a b x y where h: "hex4 c = [a, b, x, y]" by (simp add: hex4_def Let_def)
  with unhex4_hex4 [of c] have "unhex4 a b x y = Some c" by simp
  with h show ?thesis by simp
qed

lemma parseChars_unit: "parseChars (quoteUnit c @ t) = consChar c (parseChars t)"
proof (cases "c = 0x08 \<or> c = 0x09 \<or> c = 0x0A \<or> c = 0x0C \<or> c = 0x0D \<or> c = 0x22 \<or> c = 0x5C")
  case True
  then show ?thesis by (auto simp: quoteUnit_def unescape_def)
next
  case False
  show ?thesis
  proof (cases "c < 0x20 \<or> isHigh c \<or> isLow c")
    case True
    with False have "quoteUnit c = 0x5C # 0x75 # hex4 c" by (simp add: quoteUnit_def)
    then show ?thesis by (simp del: parseChars.simps add: parseChars_hex)
  next
    case plain: False
    with False have "quoteUnit c = [c]" by (simp add: quoteUnit_def)
    with False plain show ?thesis by simp
  qed
qed

lemma surrogate_plain:
  assumes "isHigh c \<or> isLow c"
  shows "c \<noteq> 0x22" "c \<noteq> 0x5C" "\<not> c < 0x20"
  using assms by (auto simp: isHigh_def isLow_def word_le_nat_alt word_less_nat_alt)

lemma parseChars_quoteChars: "parseChars (quoteChars s @ 0x22 # post) = Some (s, post)"
proof (induction s rule: quoteChars.induct)
  case 1
  show ?case by simp
next
  case (2 c)
  have "parseChars (quoteUnit c @ 0x22 # post) = consChar c (parseChars (0x22 # post))"
    by (rule parseChars_unit)
  then show ?case by (simp add: consChar_def)
next
  case (3 c d cs)
  show ?case
  proof (cases "isHigh c \<and> isLow d")
    case True
    with 3(1) have ih: "parseChars (quoteChars cs @ 0x22 # post) = Some (cs, post)" by simp
    from True have "quoteChars (c # d # cs) = c # d # quoteChars cs" by simp
    moreover from True surrogate_plain [of c] surrogate_plain [of d]
    have "parseChars (c # d # quoteChars cs @ 0x22 # post) =
            consChar c (consChar d (parseChars (quoteChars cs @ 0x22 # post)))"
      by simp
    ultimately show ?thesis using ih by (simp del: parseChars.simps quoteChars.simps add: consChar_def)
  next
    case False
    with 3(2) have ih: "parseChars (quoteChars (d # cs) @ 0x22 # post) = Some (d # cs, post)" by simp
    have "parseChars (quoteUnit c @ quoteChars (d # cs) @ 0x22 # post) =
            consChar c (parseChars (quoteChars (d # cs) @ 0x22 # post))"
      by (rule parseChars_unit)
    moreover from False have "quoteChars (c # d # cs) = quoteUnit c @ quoteChars (d # cs)" by auto
    ultimately show ?thesis using ih by (simp del: parseChars.simps quoteChars.simps add: consChar_def)
  qed
qed

lemma parseValue_string:
  "parseValue (Suc f) (quoteJSONString s @ post) = Parsed (JString s) post"
  using parseChars_quoteChars [of s post] by (simp add: quoteJSONString_def)

subsection \<open>Reading a written record\<close>

lemma skipWs_Cons: "\<not> isJsonWs c \<Longrightarrow> skipWs (c # cs) = c # cs"
  by (simp add: skipWs_def)

lemma skipWs_value: "v \<noteq> [] \<Longrightarrow> \<not> isJsonWs (hd v) \<Longrightarrow> skipWs (v @ t) = v @ t"
  by (cases v) (simp_all add: skipWs_def)

lemma notWs [simp]:
  "\<not> isJsonWs 0x22" "\<not> isJsonWs 0x3A" "\<not> isJsonWs 0x2C" "\<not> isJsonWs 0x7D" "\<not> isJsonWs 0x7B"
  "\<not> isJsonWs 0x5B" "\<not> isJsonWs 0x5D" "\<not> isJsonWs 0x2D" "\<not> isJsonWs 0x6E"
  by (simp_all add: isJsonWs_def)

lemma digit_notWs: "isDigit c \<Longrightarrow> \<not> isJsonWs c"
  by (auto simp: isDigit_def isJsonWs_def)

lemma parseMembers_property:
  assumes v: "v \<noteq> []" "\<not> isJsonWs (hd v)"
    and pv: "parseValue f (v @ x # xs) = Parsed jv (x # xs)"
    and x: "\<not> isJsonWs x"
  shows "parseMembers (Suc f) (property k v @ x # xs) =
           (if x = 0x2C then mapParsed ((#) (js k, jv)) (parseMembers f (skipWs xs))
            else if x = 0x7D then Parsed [(js k, jv)] xs
            else Failed)"
proof -
  have "property k v @ x # xs = 0x22 # quoteChars (js k) @ 0x22 # 0x3A # v @ x # xs"
    by (simp add: property_def quoteJSONString_def)
  moreover have "parseChars (quoteChars (js k) @ 0x22 # 0x3A # v @ x # xs) = Some (js k, 0x3A # v @ x # xs)"
    by (rule parseChars_quoteChars)
  moreover have "skipWs (v @ x # xs) = v @ x # xs" using v by (rule skipWs_value)
  ultimately show ?thesis using pv x
    by (simp add: skipWs_Cons)
qed

lemma parseMembers_more:
  assumes "v \<noteq> []" "\<not> isJsonWs (hd v)"
    and "parseValue f (v @ 0x2C # 0x22 # xs) = Parsed jv (0x2C # 0x22 # xs)"
    and "parseMembers f (0x22 # xs) = Parsed ms post"
  shows "parseMembers (Suc f) (property k v @ 0x2C # 0x22 # xs) = Parsed ((js k, jv) # ms) post"
  using parseMembers_property [OF assms(1,2,3), of k] assms(4)
  by (simp add: skipWs_Cons mapParsed_def)

lemma parseMembers_last:
  assumes "v \<noteq> []" "\<not> isJsonWs (hd v)"
    and "parseValue f (v @ 0x7D # xs) = Parsed jv (0x7D # xs)"
  shows "parseMembers (Suc f) (property k v @ 0x7D # xs) = Parsed [(js k, jv)] xs"
  using parseMembers_property [OF assms(1,2,3), of k] by simp

lemma string_value:
  "quoteJSONString s \<noteq> []" "\<not> isJsonWs (hd (quoteJSONString s))"
  "parseValue (Suc f) (quoteJSONString s @ post) = Parsed (JString s) post"
  by (simp_all add: parseValue_string del: parseValue.simps) (simp_all add: quoteJSONString_def)

lemma null_value:
  "js ''null'' \<noteq> []" "\<not> isJsonWs (hd (js ''null''))"
  "parseValue (Suc f) (js ''null'' @ post) = Parsed JNull post"
  by (simp_all add: js_def)

lemma photo_value:
  "(case p of None \<Rightarrow> js ''null'' | Some url \<Rightarrow> quoteJSONString url) \<noteq> []"
  "\<not> isJsonWs (hd (case p of None \<Rightarrow> js ''null'' | Some url \<Rightarrow> quoteJSONString url))"
  "parseValue (Suc f) ((case p of None \<Rightarrow> js ''null'' | Some url \<Rightarrow> quoteJSONString url) @ post) =
     Parsed (photoJson p) post"
  using null_value string_value
  by (cases p; simp add: photoJson_def del: parseValue.simps)+

lemma parseValue_number:
  assumes "s \<noteq> []" "isDigit (hd s) \<or> hd s = 0x2D"
  shows "parseValue (Suc f) s = (case parseNumber s of None \<Rightarrow> Failed | Some (v, r) \<Rightarrow> Parsed v r)"
proof -
  from assms obtain c cs where s: "s = c # cs" "isDigit c \<or> c = 0x2D" by (cases s) auto
  then have "c \<noteq> 0x5B" "c \<noteq> 0x7B" "c \<noteq> 0x22" "c \<noteq> 0x6E" "c \<noteq> 0x74" "c \<noteq> 0x66"
    using digit_facts [of c] by auto
  with s(1) show ?thesis by (simp add: js_def)
qed

lemma number_value:
  "numberToString v \<noteq> []" "\<not> isJsonWs (hd (numberToString v))"
  "delimiter x \<Longrightarrow> parseValue (Suc f) (numberToString v @ x # xs) = Parsed (JNumber False (literalValue v) 0) (x # xs)"
proof -
  show a: "numberToString v \<noteq> []" using numberToString_hd [of v] by simp
  show "\<not> isJsonWs (hd (numberToString v))" using numberToString_hd [of v] digit_notWs by blast
  assume x: "delimiter x"
  have "parseValue (Suc f) (numberToString v @ x # xs) =
          (case parseNumber (numberToString v @ x # xs) of None \<Rightarrow> Failed | Some (v, r) \<Rightarrow> Parsed v r)"
    using a numberToString_hd [of v] by (intro parseValue_number) simp_all
  then show "parseValue (Suc f) (numberToString v @ x # xs) = Parsed (JNumber False (literalValue v) 0) (x # xs)"
    by (simp add: parseNumber_numberToString [OF x] del: parseValue.simps)
qed

lemma duration_value:
  "serializeNumber d \<noteq> []" "\<not> isJsonWs (hd (serializeNumber d))"
  "delimiter x \<Longrightarrow> parseValue (Suc f) (serializeNumber d @ x # xs) = Parsed (numberJson d) (x # xs)"
  using null_value number_value
  by (cases d; simp add: serializeNumber_def numberJson_def del: parseValue.simps)+

lemma int_value:
  "serializeInt t \<noteq> []" "\<not> isJsonWs (hd (serializeInt t))"
  "delimiter x \<Longrightarrow> parseValue (Suc f) (serializeInt t @ x # xs) = Parsed (intJson t) (x # xs)"
proof -
  show "serializeInt t \<noteq> []" using number_value(1) by (simp add: serializeInt_def)
  show "\<not> isJsonWs (hd (serializeInt t))" using number_value(2) by (simp add: serializeInt_def)
  assume x: "delimiter x"
  show "parseValue (Suc f) (serializeInt t @ x # xs) = Parsed (intJson t) (x # xs)"
  proof (cases "t < 0")
    case True
    have "parseValue (Suc f) (0x2D # numberToString (nat (- t)) @ x # xs) =
            (case parseNumber (0x2D # numberToString (nat (- t)) @ x # xs) of
               None \<Rightarrow> Failed | Some (v, r) \<Rightarrow> Parsed v r)"
      by (intro parseValue_number) simp_all
    with True show ?thesis
      by (simp add: serializeInt_def intJson_def parseNumber_negative [OF x] del: parseValue.simps)
  next
    case False
    with number_value(3) [OF x] show ?thesis
      by (simp add: serializeInt_def intJson_def del: parseValue.simps)
  qed
qed

lemma delimiters [simp]: "delimiter 0x2C" "delimiter 0x7D"
  by (simp_all add: delimiter_def)

lemma property_Cons: "property k v = 0x22 # quoteChars (js k) @ 0x22 # 0x3A # v"
  by (simp add: property_def quoteJSONString_def)

lemma parseMembers_record:
  "parseMembers (Suc (Suc (Suc (Suc (Suc (Suc (Suc f)))))))
     (property ''activityTitle'' (quoteJSONString (activityTitle r)) @
      0x2C # property ''topic'' (quoteJSONString (rec_topic r)) @
      0x2C # property ''photoUrl''
               (case photoUrl r of None \<Rightarrow> js ''null'' | Some p \<Rightarrow> quoteJSONString p) @
      0x2C # property ''durationMinutes'' (serializeNumber (durationMinutes r)) @
      0x2C # property ''id'' (quoteJSONString (rec_id r)) @
      0x2C # property ''timestamp'' (serializeInt (timestamp r)) @ 0x7D # post) =
   Parsed [(js ''activityTitle'', JString (activityTitle r)),
           (js ''topic'', JString (rec_topic r)),
           (js ''photoUrl'', photoJson (photoUrl r)),
           (js ''durationMinutes'', numberJson (durationMinutes r)),
           (js ''id'', JString (rec_id r)),
           (js ''timestamp'', intJson (timestamp r))] post"
proof -
  have m6: "parseMembers (Suc (Suc f)) (property ''timestamp'' (serializeInt (timestamp r)) @ 0x7D # post) =
              Parsed [(js ''timestamp'', intJson (timestamp r))] post"
    by (rule parseMembers_last [OF int_value]) simp
  have m5: "parseMembers (Suc (Suc (Suc f)))
              (property ''id'' (quoteJSONString (rec_id r)) @
               0x2C # property ''timestamp'' (serializeInt (timestamp r)) @ 0x7D # post) =
            Parsed [(js ''id'', JString (rec_id r)), (js ''timestamp'', intJson (timestamp r))] post"
    unfolding property_Cons [of "''timestamp''"] append_Cons
    by (rule parseMembers_more [OF string_value])
       (rule m6 [unfolded property_Cons [of "''timestamp''"] append_Cons])
  have m4: "parseMembers (Suc (Suc (Suc (Suc f))))
              (property ''durationMinutes'' (serializeNumber (durationMinutes r)) @
               0x2C # property ''id'' (quoteJSONString (rec_id r)) @
               0x2C # property ''timestamp'' (serializeInt (timestamp r)) @ 0x7D # post) =
            Parsed [(js ''durationMinutes'', numberJson (durationMinutes r)),
                    (js ''id'', JString (rec_id r)), (js ''timestamp'', intJson (timestamp r))] post"
    unfolding property_Cons [of "''id''"] append_Cons
    by (rule parseMembers_more [OF duration_value], simp)
       (rule m5 [unfolded property_Cons [of "''id''"] append_Cons])
  have m3: "parseMembers (Suc (Suc (Suc (Suc (Suc f)))))
              (property ''photoUrl''
                 (case photoUrl r of None \<Rightarrow> js ''null'' | Some p \<Rightarrow> quoteJSONString p) @
               0x2C # property ''durationMinutes'' (serializeNumber (durationMinutes r)) @
               0x2C # property ''id'' (quoteJSONString (rec_id r)) @
               0x2C # property ''timestamp'' (serializeInt (timestamp r)) @ 0x7D # post) =
            Parsed [(js ''photoUrl'', photoJson (photoUrl r)),
                    (js ''durationMinutes'', numberJson (durationMinutes r)),
                    (js ''id'', JString (rec_id r)), (js ''timestamp'', intJson (timestamp r))] post"
    unfolding property_Cons [of "''durationMinutes''"] append_Cons
    by (rule parseMembers_more [OF photo_value])
       (rule m4 [unfolded property_Cons [of "''durationMinutes''"] append_Cons])
  have m2: "parseMembers (Suc (Suc (Suc (Suc (Suc (Suc f))))))
              (property ''topic'' (quoteJSONString (rec_topic r)) @
               0x2C # property ''photoUrl''
                 (case photoUrl r of None \<Rightarrow> js ''null'' | Some p \<Rightarrow> quoteJSONString p) @
               0x2C # property ''durationMinutes'' (serializeNumber (durationMinutes r)) @
               0x2C # property ''id'' (quoteJSONString (rec_id r)) @
               0x2C # property ''timestamp'' (serializeInt (timestamp r)) @ 0x7D # post) =
            Parsed [(js ''topic'', JString (rec_topic r)),
                    (js ''photoUrl'', photoJson (photoUrl r)),
                    (js ''durationMinutes'', numberJson (durationMinutes r)),
                    (js ''id'', JString (rec_id r)), (js ''timestamp'', intJson (timestamp r))] post"
    unfolding property_Cons [of "''photoUrl''"] append_Cons
    by (rule parseMembers_more [OF string_value])
       (rule m3 [unfolded property_Cons [of "''photoUrl''"] append_Cons])
  show ?thesis
    unfolding property_Cons [of "''topic''"] append_Cons
    by (rule parseMembers_more [OF string_value])
       (rule m2 [unfolded property_Cons [of "''topic''"] append_Cons])
qed

lemma parseValue_object:
  "parseValue (Suc g) (0x7B # property k v @ t) = mapParsed JObject (parseMembers g (property k v @ t))"
  by (simp add: property_Cons skipWs_Cons del: parseMembers.simps)

lemma parseValue_record_fuel:
  "parseValue (Suc (Suc (Suc (Suc (Suc (Suc (Suc (Suc f)))))))) (serializeRecord r @ post) =
     Parsed (recordJson r) post"
proof -
  have "serializeRecord r @ post =
     0x7B # property ''activityTitle'' (quoteJSONString (activityTitle r)) @
      0x2C # property ''topic'' (quoteJSONString (rec_topic r)) @
      0x2C # property ''photoUrl''
               (case photoUrl r of None \<Rightarrow> js ''null'' | Some p \<Rightarrow> quoteJSONString p) @
      0x2C # property ''durationMinutes'' (serializeNumber (durationMinutes r)) @
      0x2C # property ''id'' (quoteJSONString (rec_id r)) @
      0x2C # property ''timestamp'' (serializeInt (timestamp r)) @ 0x7D # post"
    by (simp add: serializeRecord_def)
  then show ?thesis
    by (simp only: parseValue_object parseMembers_record) (simp add: mapParsed_def recordJson_def)
qed

lemma parseValue_record:
  assumes "8 \<le> g"
  shows "parseValue g (serializeRecord r @ post) = Parsed (recordJson r) post"
proof -
  from assms have "g = Suc (Suc (Suc (Suc (Suc (Suc (Suc (Suc (g - 8))))))))" by simp
  then show ?thesis using parseValue_record_fuel [of "g - 8" r post] by simp
qed

subsection \<open>Reading a written journal\<close>

lemma length_joinComma:
  "(\<forall>x \<in> set xs. 3 \<le> length x) \<Longrightarrow> 3 * length xs \<le> length (joinComma xs)"
  by (induction xs rule: joinComma.induct) simp_all

lemma length_serializeRecord: "3 \<le> length (serializeRecord r)"
  by (simp add: serializeRecord_def property_def quoteJSONString_def)

lemma serializeRecord_hd: "\<exists>t. serializeRecord r = 0x7B # t"
  by (simp add: serializeRecord_def)

lemma joinComma_Cons: "joinComma ((c # t) # xs) = c # joinComma (t # xs)"
  by (cases xs) simp_all

lemma parseValue_empty_array: "0 < f \<Longrightarrow> parseValue f [0x5B, 0x5D] = Parsed (JArray []) []"
  by (cases f) (simp_all add: skipWs_Cons)

lemma parseElements_records:
  "rs \<noteq> [] \<Longrightarrow> length rs + 8 \<le> f \<Longrightarrow>
   parseElements f (joinComma (map serializeRecord rs) @ 0x5D # post) = Parsed (map recordJson rs) post"
proof (induction rs arbitrary: f)
  case Nil
  then show ?case by simp
next
  case (Cons r rs)
  from Cons.prems obtain g where f: "f = Suc g" and g: "8 \<le> g" "length rs + 8 \<le> g"
    by (cases f) auto
  show ?case
  proof (cases rs)
    case Nil
    have "parseValue g (serializeRecord r @ 0x5D # post) = Parsed (recordJson r) (0x5D # post)"
      using g(1) by (rule parseValue_record)
    with Nil f show ?thesis by (simp add: skipWs_Cons del: parseValue.simps)
  next
    case (Cons r' rs')
    let ?tail = "joinComma (map serializeRecord rs) @ 0x5D # post"
    have v: "parseValue g (serializeRecord r @ 0x2C # ?tail) = Parsed (recordJson r) (0x2C # ?tail)"
      using g(1) by (rule parseValue_record)
    obtain t where "serializeRecord r' = 0x7B # t" using serializeRecord_hd by blast
    with Cons have "skipWs ?tail = ?tail" by (simp add: skipWs_Cons joinComma_Cons del: joinComma.simps)
    moreover have "parseElements g ?tail = Parsed (map recordJson rs) post"
      using Cons g(2) by (intro Cons.IH) simp_all
    ultimately show ?thesis using v f Cons
      by (simp add: skipWs_Cons mapParsed_def del: parseValue.simps parseElements.simps)
         (simp add: skipWs_Cons mapParsed_def del: parseValue.simps)
  qed
qed

lemma JSON_stringify_nonempty: "JSON_stringify rs \<noteq> []"
  by (simp add: JSON_stringify_def)

lemma JSON_roundtrip: "JSON_parse (JSON_stringify rs) = Inr (journalJson rs)"
proof (cases "rs = []")
  case True
  then show ?thesis
    by (simp add: JSON_parse_def JSON_stringify_def journalJson_def skipWs_Cons parseValue_empty_array
          del: parseValue.simps) (simp add: skipWs_def)
next
  case False
  let ?body = "joinComma (map serializeRecord rs)"
  let ?f = "2 * length (0x5B # ?body @ [0x5D])"
  have "3 * length (map serializeRecord rs) \<le> length ?body"
    by (rule length_joinComma) (simp add: length_serializeRecord)
  with False have "length rs + 8 \<le> ?f" by (cases rs) simp_all
  with False have e: "parseElements ?f (?body @ 0x5D # []) = Parsed (map recordJson rs) []"
    by (rule parseElements_records)
  from False obtain r rs' where rs: "rs = r # rs'" by (cases rs) auto
  obtain t where "serializeRecord r = 0x7B # t" using serializeRecord_hd by blast
  with rs obtain u where u: "?body @ [0x5D] = 0x7B # u"
    by (simp add: joinComma_Cons del: joinComma.simps)
  have "parseValue (Suc ?f) (0x5B # ?body @ [0x5D]) = Parsed (JArray (map recordJson rs)) []"
    using e unfolding u
    by (simp add: skipWs_Cons mapParsed_def del: parseElements.simps)
  then show ?thesis
    unfolding JSON_parse_def JSON_stringify_def journalJson_def
    by (simp add: skipWs_Cons del: parseValue.simps) (simp add: skipWs_def)
qed

lemma toNumber_literalValue: "isDouble v \<Longrightarrow> toNumber (literalValue v) = Fin v"
  using shortest_valid [of v]
  by (cases "v = 0") (simp_all add: literalValue_def isDouble_def)

lemma asRecord_recordJson:
  assumes "storable r"
  shows "asRecord (recordJson r) = Some r"
proof -
  from assms obtain v where d: "durationMinutes r = Fin v" "isDouble v"
    and t: "isDouble (nat \<bar>timestamp r\<bar>)"
    by (auto simp: storable_def split: number.splits)
  have "asString (JString (activityTitle r)) = Some (activityTitle r)"
    "asString (JString (rec_topic r)) = Some (rec_topic r)"
    "asString (JString (rec_id r)) = Some (rec_id r)"
    by (simp_all add: asString_def)
  moreover have "asPhoto (photoJson (photoUrl r)) = Some (photoUrl r)"
    by (cases "photoUrl r") (simp_all add: asPhoto_def photoJson_def)
  moreover have "asNumber (numberJson (durationMinutes r)) = Some (durationMinutes r)"
    using d by (simp add: asNumber_def numberJson_def toNumber_literalValue)
  moreover have "asInteger (intJson (timestamp r)) = Some (timestamp r)"
    using t by (auto simp: asInteger_def intJson_def toNumber_literalValue)
  ultimately show ?thesis
    by (simp add: asRecord_def recordJson_def recordKeys_def)
qed

lemma asRecord_unstorable:
  assumes "durationMinutes r = Infinity \<or> durationMinutes r = NaN"
  shows "asRecord (recordJson r) = None"
proof -
  from assms have "asNumber (numberJson (durationMinutes r)) = None"
    by (auto simp: asNumber_def numberJson_def)
  then show ?thesis
    by (simp add: asRecord_def recordJson_def recordKeys_def asString_def)
qed

lemma those_map_Some: "(\<forall>x \<in> set xs. f x = Some (g x)) \<Longrightarrow> those (map f xs) = Some (map g xs)"
  by (induction xs) simp_all

lemma those_map_None: "x \<in> set xs \<Longrightarrow> f x = None \<Longrightarrow> those (map f xs) = None"
  by (induction xs) (auto split: option.splits)

lemma asJournal_journalJson:
  assumes "\<forall>r \<in> set rs. storable r"
  shows "asJournal (journalJson rs) = Some rs"
proof -
  have "those (map asRecord (map recordJson rs)) = Some (map id rs)"
    unfolding map_map by (rule those_map_Some) (simp add: asRecord_recordJson assms)
  then show ?thesis by (simp add: asJournal_def journalJson_def)
qed

lemma asJournal_unstorable:
  assumes "r \<in> set rs" "durationMinutes r = Infinity \<or> durationMinutes r = NaN"
  shows "asJournal (journalJson rs) = None"
proof -
  have "those (map (asRecord \<circ> recordJson) rs) = None"
    using assms(1) by (rule those_map_None) (simp add: asRecord_unstorable assms(2))
  then show ?thesis by (simp add: asJournal_def journalJson_def)
qed

subsection \<open>The counter of the parser\<close>

text \<open>
  Every value, element list and member list that is read takes at least one character, so
  a counter of twice the length of the text and one is never used up.
\<close>

lemma length_skipWs: "length (skipWs s) \<le> length s"
  by (simp add: skipWs_def length_dropWhile_le)

lemma consChar_length:
  "consChar u p = Some (str, r) \<Longrightarrow> \<exists>str'. p = Some (str', r)"
  by (auto simp: consChar_def split: option.splits)

lemma parseChars_length: "parseChars s = Some (str, r) \<Longrightarrow> length r < length s"
proof (induction s arbitrary: str rule: parseChars.induct)
  case 1
  then show ?case by simp
next
  case (2 c cs)
  show ?case
  proof (cases "c = 0x22")
    case True
    with 2(4) show ?thesis by simp
  next
    case nq: False
    show ?thesis
    proof (cases "c = 0x5C")
      case True
      show ?thesis
      proof (cases cs)
        case Nil
        with True nq 2(4) show ?thesis by simp
      next
        case (Cons e r0)
        show ?thesis
        proof (cases "e = 0x75")
          case u: True
          from 2(4) nq True Cons u obtain a b x y r' w where r0: "r0 = a # b # x # y # r'"
            and w: "unhex4 a b x y = Some w" and p: "consChar w (parseChars r') = Some (str, r)"
            by (auto split: list.splits option.splits)
          from p obtain str' where "parseChars r' = Some (str', r)" by (blast dest: consChar_length)
          with 2(1) [OF nq True Cons u r0 refl refl refl w] have "length r < length r'" by blast
          with Cons r0 show ?thesis by simp
        next
          case nu: False
          from 2(4) nq True Cons nu obtain w where w: "unescape e = Some w"
            and p: "consChar w (parseChars r0) = Some (str, r)"
            by (auto split: option.splits)
          from p obtain str' where "parseChars r0 = Some (str', r)" by (blast dest: consChar_length)
          with 2(2) [OF nq True Cons nu w] have "length r < length r0" by blast
          with Cons show ?thesis by simp
        qed
      qed
    next
      case nb: False
      from 2(4) nq nb have c: "\<not> c < 0x20" and p: "consChar c (parseChars cs) = Some (str, r)"
        by (auto split: if_splits)
      from p obtain str' where "parseChars cs = Some (str', r)" by (blast dest: consChar_length)
      with 2(3) [OF nq nb c] have "length r < length cs" by blast
      then show ?thesis by simp
    qed
  qed
qed

lemma parseFraction_length: "parseFraction s = Some (fd, r) \<Longrightarrow> length r \<le> length s"
  by (auto simp: parseFraction_def Let_def split: list.splits if_splits
           intro: le_SucI length_dropWhile_le)

lemma parseExponent_length: "parseExponent s = Some (ex, r) \<Longrightarrow> length r \<le> length s"
proof -
  assume a: "parseExponent s = Some (ex, r)"
  show ?thesis
  proof (cases s)
    case Nil
    with a show ?thesis by (simp add: parseExponent_def)
  next
    case (Cons c cs)
    show ?thesis
    proof (cases "c = 0x65 \<or> c = 0x45")
      case False
      with a Cons show ?thesis by (auto simp: parseExponent_def)
    next
      case True
      let ?t = "if cs \<noteq> [] \<and> (hd cs = 0x2D \<or> hd cs = 0x2B) then tl cs else cs"
      from a Cons True have "r = dropWhile isDigit ?t"
        by (auto simp: parseExponent_def Let_def split: if_splits)
      moreover have "length (dropWhile isDigit ?t) \<le> length ?t" by (rule length_dropWhile_le)
      moreover have "length ?t \<le> length cs" by simp
      ultimately show ?thesis using Cons by simp
    qed
  qed
qed

lemma dropWhile_shorter: "takeWhile P s \<noteq> [] \<Longrightarrow> length (dropWhile P s) < length s"
  by (cases s) (auto split: if_splits intro: le_imp_less_Suc length_dropWhile_le)

lemma parseNumber_length:
  assumes "parseNumber s = Some (v, r)"
  shows "length r < length s"
proof -
  let ?s1 = "if s \<noteq> [] \<and> hd s = 0x2D then tl s else s"
  from assms have ds: "takeWhile isDigit ?s1 \<noteq> []"
    by (auto simp: parseNumber_def Let_def split: if_splits)
  from assms obtain fd s3 ex where f: "parseFraction (dropWhile isDigit ?s1) = Some (fd, s3)"
    and e: "parseExponent s3 = Some (ex, r)"
    by (auto simp: parseNumber_def Let_def split: if_splits option.splits)
  have "length r \<le> length s3" using e by (rule parseExponent_length)
  also have "\<dots> \<le> length (dropWhile isDigit ?s1)" using f by (rule parseFraction_length)
  also have "\<dots> < length ?s1" using ds by (rule dropWhile_shorter)
  also have "\<dots> \<le> length s" by simp
  finally show ?thesis .
qed

lemma mapParsed_Parsed: "mapParsed g p = Parsed v r \<Longrightarrow> \<exists>v'. p = Parsed v' r"
  by (auto simp: mapParsed_def split: reading.splits)

lemma mapParsed_Exhausted: "mapParsed g p = Exhausted \<longleftrightarrow> p = Exhausted"
  by (auto simp: mapParsed_def split: reading.splits)

lemma literal_length: "prefix p s \<Longrightarrow> p \<noteq> [] \<Longrightarrow> length (drop (length p) s) < length s"
  by (auto simp: prefix_def)

lemma parse_consumes:
  "(\<forall>s v r. parseValue f s = Parsed v r \<longrightarrow> length r < length s) \<and>
   (\<forall>s v r. parseElements f s = Parsed v r \<longrightarrow> length r < length s) \<and>
   (\<forall>s v r. parseMembers f s = Parsed v r \<longrightarrow> length r < length s)"
proof (induction f)
  case 0
  show ?case by simp
next
  case (Suc f)
  then have ihV: "\<And>s v r. parseValue f s = Parsed v r \<Longrightarrow> length r < length s"
    and ihE: "\<And>s v r. parseElements f s = Parsed v r \<Longrightarrow> length r < length s"
    and ihM: "\<And>s v r. parseMembers f s = Parsed v r \<Longrightarrow> length r < length s"
    by blast+
  have V: "length r < length s" if p: "parseValue (Suc f) s = Parsed v r" for s v r
  proof (cases s)
    case Nil
    with p show ?thesis by simp
  next
    case (Cons c cs)
    have ws: "length (skipWs cs) \<le> length cs" by (rule length_skipWs)
    consider (arr) "c = 0x5B" | (obj) "c \<noteq> 0x5B" "c = 0x7B" | (str) "c \<noteq> 0x5B" "c \<noteq> 0x7B" "c = 0x22"
      | (other) "c \<noteq> 0x5B" "c \<noteq> 0x7B" "c \<noteq> 0x22" by blast
    then show ?thesis
    proof cases
      case arr
      show ?thesis
      proof (cases "skipWs cs")
        case Nil
        with p Cons arr show ?thesis by simp
      next
        case inner: (Cons d ds)
        show ?thesis
        proof (cases "d = 0x5D")
          case True
          with p Cons arr inner have "r = ds" by simp
          with ws inner Cons show ?thesis by simp
        next
          case False
          with p Cons arr inner have "mapParsed JArray (parseElements f (d # ds)) = Parsed v r" by simp
          then obtain v' where "parseElements f (d # ds) = Parsed v' r" by (blast dest: mapParsed_Parsed)
          then have "length r < length (d # ds)" by (rule ihE)
          with ws inner Cons show ?thesis by simp
        qed
      qed
    next
      case obj
      show ?thesis
      proof (cases "skipWs cs")
        case Nil
        with p Cons obj show ?thesis by simp
      next
        case inner: (Cons d ds)
        show ?thesis
        proof (cases "d = 0x7D")
          case True
          with p Cons obj inner have "r = ds" by simp
          with ws inner Cons show ?thesis by simp
        next
          case False
          with p Cons obj inner have "mapParsed JObject (parseMembers f (d # ds)) = Parsed v r" by simp
          then obtain v' where "parseMembers f (d # ds) = Parsed v' r" by (blast dest: mapParsed_Parsed)
          then have "length r < length (d # ds)" by (rule ihM)
          with ws inner Cons show ?thesis by simp
        qed
      qed
    next
      case str
      with p Cons obtain t where "parseChars cs = Some (t, r)"
        by (auto split: option.splits)
      then have "length r < length cs" by (rule parseChars_length)
      with Cons show ?thesis by simp
    next
      case other
      have l4: "length (js ''null'') = 4" "length (js ''true'') = 4" "length (js ''false'') = 5"
        by (simp_all add: js_def)
      consider (n) "prefix (js ''null'') s" | (t) "\<not> prefix (js ''null'') s" "prefix (js ''true'') s"
        | (f) "\<not> prefix (js ''null'') s" "\<not> prefix (js ''true'') s" "prefix (js ''false'') s"
        | (num) "\<not> prefix (js ''null'') s" "\<not> prefix (js ''true'') s" "\<not> prefix (js ''false'') s"
        by blast
      then show ?thesis
      proof cases
        case n
        with p Cons other have "r = drop 4 s" by (simp del: Cons_prefix_Cons)
        with literal_length [OF n] l4 show ?thesis by (simp add: js_def)
      next
        case t
        with p Cons other have "r = drop 4 s" by (simp del: Cons_prefix_Cons)
        with literal_length [OF t(2)] l4 show ?thesis by (simp add: js_def)
      next
        case f
        with p Cons other have "r = drop 5 s" by (simp del: Cons_prefix_Cons)
        with literal_length [OF f(3)] l4 show ?thesis by (simp add: js_def)
      next
        case num
        with p Cons other have "parseNumber s = Some (v, r)"
          by (auto simp del: Cons_prefix_Cons split: option.splits)
        then show ?thesis by (rule parseNumber_length)
      qed
    qed
  qed
  have E: "length r < length s" if p: "parseElements (Suc f) s = Parsed v r" for s v r
  proof -
    from p obtain v1 r1 where v1: "parseValue f s = Parsed v1 r1"
      by (auto split: reading.splits)
    then have l1: "length r1 < length s" by (rule ihV)
    from p v1 obtain d ds where d: "skipWs r1 = d # ds" by (auto split: list.splits)
    have l2: "length ds < length r1" using length_skipWs [of r1] d by simp
    show ?thesis
    proof (cases "d = 0x2C")
      case True
      with p v1 d have "mapParsed ((#) v1) (parseElements f (skipWs ds)) = Parsed v r" by simp
      then obtain v' where "parseElements f (skipWs ds) = Parsed v' r" by (blast dest: mapParsed_Parsed)
      then have "length r < length (skipWs ds)" by (rule ihE)
      with length_skipWs [of ds] l1 l2 show ?thesis by simp
    next
      case False
      with p v1 d have "r = ds" by (auto split: if_splits)
      with l1 l2 show ?thesis by simp
    qed
  qed
  have M: "length r < length s" if p: "parseMembers (Suc f) s = Parsed v r" for s v r
  proof -
    from p obtain cs where s: "s = 0x22 # cs" by (auto split: list.splits if_splits)
    with p obtain key r0 where k: "parseChars cs = Some (key, r0)" by (auto split: option.splits)
    then have l0: "length r0 < length cs" by (rule parseChars_length)
    from p s k obtain ds where d: "skipWs r0 = 0x3A # ds" by (auto split: list.splits if_splits)
    have l1: "length ds < length r0" using length_skipWs [of r0] d by simp
    from p s k d obtain v1 r1 where v1: "parseValue f (skipWs ds) = Parsed v1 r1"
      by (auto split: reading.splits)
    then have "length r1 < length (skipWs ds)" by (rule ihV)
    with length_skipWs [of ds] have l2: "length r1 < length ds" by simp
    from p s k d v1 obtain x xs where x: "skipWs r1 = x # xs" by (auto split: list.splits)
    have l3: "length xs < length r1" using length_skipWs [of r1] x by simp
    show ?thesis
    proof (cases "x = 0x2C")
      case True
      with p s k d v1 x have "mapParsed ((#) (key, v1)) (parseMembers f (skipWs xs)) = Parsed v r" by simp
      then obtain v' where "parseMembers f (skipWs xs) = Parsed v' r" by (blast dest: mapParsed_Parsed)
      then have "length r < length (skipWs xs)" by (rule ihM)
      with length_skipWs [of xs] l0 l1 l2 l3 s show ?thesis by simp
    next
      case False
      with p s k d v1 x have "r = xs" by (auto split: if_splits)
      with l0 l1 l2 l3 s show ?thesis by simp
    qed
  qed
  from V E M show ?case by blast
qed

lemma parse_fuel:
  "(\<forall>s. 2 * length s + 1 \<le> f \<longrightarrow> parseValue f s \<noteq> Exhausted) \<and>
   (\<forall>s. 2 * length s + 2 \<le> f \<longrightarrow> parseElements f s \<noteq> Exhausted) \<and>
   (\<forall>s. 2 * length s + 2 \<le> f \<longrightarrow> parseMembers f s \<noteq> Exhausted)"
proof (induction f)
  case 0
  show ?case by simp
next
  case (Suc f)
  then have ihV: "\<And>s. 2 * length s + 1 \<le> f \<Longrightarrow> parseValue f s \<noteq> Exhausted"
    and ihE: "\<And>s. 2 * length s + 2 \<le> f \<Longrightarrow> parseElements f s \<noteq> Exhausted"
    and ihM: "\<And>s. 2 * length s + 2 \<le> f \<Longrightarrow> parseMembers f s \<noteq> Exhausted"
    by blast+
  have V: "parseValue (Suc f) s \<noteq> Exhausted" if b: "2 * length s + 1 \<le> Suc f" for s
  proof (cases s)
    case Nil
    then show ?thesis by simp
  next
    case (Cons c cs)
    have inner: "2 * length t + 2 \<le> f" if "skipWs cs = t" for t
      using that length_skipWs [of cs] b Cons by auto
    show ?thesis
      using Cons ihE [OF inner] ihM [OF inner]
      by (auto simp: mapParsed_Exhausted simp del: Cons_prefix_Cons split: list.splits option.splits)
  qed
  have E: "parseElements (Suc f) s \<noteq> Exhausted" if b: "2 * length s + 2 \<le> Suc f" for s
  proof (cases "parseValue f s")
    case Exhausted
    moreover from b have "2 * length s + 1 \<le> f" by simp
    ultimately show ?thesis using ihV by blast
  next
    case Failed
    then show ?thesis by simp
  next
    case (Parsed v1 r1)
    with parse_consumes [of f] have l1: "length r1 < length s" by blast
    show ?thesis
    proof (cases "skipWs r1")
      case Nil
      with Parsed show ?thesis by simp
    next
      case (Cons d ds)
      have "length ds < length r1" using length_skipWs [of r1] Cons by simp
      with l1 b length_skipWs [of ds] have "2 * length (skipWs ds) + 2 \<le> f" by simp
      then have "parseElements f (skipWs ds) \<noteq> Exhausted" by (rule ihE)
      with Parsed Cons show ?thesis by (simp add: mapParsed_Exhausted)
    qed
  qed
  have M: "parseMembers (Suc f) s \<noteq> Exhausted" if b: "2 * length s + 2 \<le> Suc f" for s
  proof (rule notI)
    assume x: "parseMembers (Suc f) s = Exhausted"
    then obtain cs where s: "s = 0x22 # cs" by (auto split: list.splits if_splits)
    with x obtain key r0 where k: "parseChars cs = Some (key, r0)" by (auto split: option.splits)
    then have l0: "length r0 < length cs" by (rule parseChars_length)
    from x s k obtain ds where d: "skipWs r0 = 0x3A # ds" by (auto split: list.splits if_splits)
    have l1: "length ds < length r0" using length_skipWs [of r0] d by simp
    from l0 l1 b s length_skipWs [of ds] have "2 * length (skipWs ds) + 1 \<le> f" by simp
    then have nv: "parseValue f (skipWs ds) \<noteq> Exhausted" by (rule ihV)
    with x s k d obtain v1 r1 where v1: "parseValue f (skipWs ds) = Parsed v1 r1"
      by (auto split: reading.splits)
    with parse_consumes [of f] have "length r1 < length (skipWs ds)" by blast
    with length_skipWs [of ds] have l2: "length r1 < length ds" by simp
    from x s k d v1 obtain y xs where y: "skipWs r1 = y # xs" by (auto split: list.splits)
    have l3: "length xs < length r1" using length_skipWs [of r1] y by simp
    from l0 l1 l2 l3 b s length_skipWs [of xs] have "2 * length (skipWs xs) + 2 \<le> f" by simp
    then have "parseMembers f (skipWs xs) \<noteq> Exhausted" by (rule ihM)
    with x s k d v1 y show False by (auto simp: mapParsed_Exhausted split: if_splits)
  qed
  from V E M show ?case by blast
qed

lemma JSON_parse_fuel: "parseValue (Suc (2 * length src)) (skipWs src) \<noteq> Exhausted"
proof -
  have "2 * length (skipWs src) + 1 \<le> Suc (2 * length src)"
    using length_skipWs [of src] by simp
  with parse_fuel [of "Suc (2 * length src)"] show ?thesis by blast
qed

subsection \<open>Numbers out of range, and small ones\<close>

lemma toNumber_overflow:
  assumes "2 ^ 1024 \<le> n"
  shows "toNumber n = Infinity"
proof -
  define e where "e = bitlen n - 53"
  define q where "q = n div 2 ^ e"
  define m where "m = (if 2 ^ (e - 1) < n mod 2 ^ e \<or> (n mod 2 ^ e = 2 ^ (e - 1) \<and> odd q) then q + 1 else q)"
  have "\<not> bitlen n \<le> 1024" unfolding bitlen_le_iff using assms by (simp only: not_less)
  then have b: "1024 < bitlen n" by simp
  have "\<not> bitlen n \<le> bitlen n - 1" using b by simp
  then have low: "2 ^ (bitlen n - 1) \<le> n" unfolding bitlen_le_iff by (simp only: not_less)
  have sp: "bitlen n - 1 = 52 + e" using b by (simp add: e_def)
  have "(2::nat) ^ 52 * 2 ^ e \<le> n" using low unfolding sp power_add .
  moreover have "(0::nat) < 2 ^ e" by simp
  ultimately have "2 ^ 52 \<le> q" unfolding q_def by (simp only: less_eq_div_iff_mult_less_eq)
  moreover have "q \<le> m" by (simp add: m_def)
  ultimately have "2 ^ 52 \<le> m" by (rule order_trans)
  then have "2 ^ 52 * 2 ^ e \<le> m * 2 ^ e" by (rule mult_le_mono1)
  moreover have "(2::nat) ^ 1024 \<le> 2 ^ (52 + e)"
    by (rule power_increasing) (use b sp in simp_all)
  ultimately have big: "2 ^ 1024 \<le> m * 2 ^ e" unfolding power_add by (rule order_trans [rotated])
  have "\<not> bitlen n \<le> 53" using b by simp
  then have "toNumber n = (if 2 ^ 1024 \<le> m * 2 ^ e then Infinity else Fin (m * 2 ^ e))"
    unfolding m_def q_def e_def by (simp only: toNumber_def Let_def if_False)
  with big show ?thesis by (simp only: if_True)
qed

lemma dec_length: "0 < k \<Longrightarrow> v < 10 ^ k \<Longrightarrow> length (dec v) \<le> k"
proof (induction k arbitrary: v)
  case 0
  then show ?case by simp
next
  case (Suc k)
  show ?case
  proof (cases "v < 10")
    case True
    then show ?thesis by (subst dec.simps) simp
  next
    case False
    with Suc.prems have k: "0 < k" by (cases k) simp_all
    from Suc.prems have "v div 10 < 10 ^ k" by (simp add: less_mult_imp_div_less mult.commute)
    with Suc.IH [OF k] have "length (dec (v div 10)) \<le> k" by blast
    with False show ?thesis by (subst dec.simps) simp
  qed
qed

lemma candidate_bound:
  assumes c: "c \<in> set (candidates v n k)"
  shows "fst c * 10 ^ snd c \<le> v + 10 ^ snd c" "snd c \<le> n" "toNumber (fst c * 10 ^ snd c) = Fin v"
proof -
  from c have r: "10 ^ (k - 1) \<le> fst c" "fst c < 10 ^ k" and t: "toNumber (fst c * 10 ^ snd c) = Fin v"
    and m: "c \<in> set (concat (map (\<lambda>e. [(v div 10 ^ e, e), (v div 10 ^ e + 1, e)]) [n - k, Suc n - k]))"
    unfolding candidates_def set_filter by blast+
  from t show "toNumber (fst c * 10 ^ snd c) = Fin v" .
  from r have k: "0 < k" by (cases k) simp_all
  from m have e: "snd c = n - k \<or> snd c = Suc n - k" and s: "fst c \<le> v div 10 ^ snd c + 1"
    by auto
  from e k show "snd c \<le> n" by auto
  have "fst c * 10 ^ snd c \<le> (v div 10 ^ snd c + 1) * 10 ^ snd c" using s by (rule mult_le_mono1)
  also have "\<dots> = v div 10 ^ snd c * 10 ^ snd c + 10 ^ snd c" by (simp add: algebra_simps)
  also have "\<dots> \<le> v + 10 ^ snd c" by simp
  finally show "fst c * 10 ^ snd c \<le> v + 10 ^ snd c" .
qed

lemma literalValue_small:
  assumes "v < 10 ^ 15"
  shows "literalValue v = v"
proof (cases "v = 0")
  case True
  then show ?thesis by (simp add: literalValue_def)
next
  case False
  from shortest_cases [of v] have "fst (shortest v) * 10 ^ snd (shortest v) = v"
  proof
    assume "shortest v = (v, 0)"
    then show ?thesis by simp
  next
    assume "\<exists>k. shortest v \<in> set (candidates v (length (dec v)) k)"
    then obtain k where k: "shortest v \<in> set (candidates v (length (dec v)) k)" ..
    let ?x = "fst (shortest v) * 10 ^ snd (shortest v)"
    have "length (dec v) \<le> 15" using assms by (intro dec_length) simp_all
    with candidate_bound(2) [OF k] have "snd (shortest v) \<le> 15" by simp
    then have "(10::nat) ^ snd (shortest v) \<le> 10 ^ 15" by (intro power_increasing) simp_all
    with candidate_bound(1) [OF k] assms have "?x \<le> 2 ^ 53" by simp
    then have "toNumber ?x = Fin ?x" by (rule toNumber_exact)
    with candidate_bound(3) [OF k] show ?thesis by simp
  qed
  with False show ?thesis by (simp add: literalValue_def)
qed

lemma isDouble_small: "v \<le> 2 ^ 53 \<Longrightarrow> isDouble v"
  by (simp add: isDouble_def toNumber_exact)

lemma bitlen_upper: "n < 2 ^ bitlen n"
  using bitlen_le_iff [of n "bitlen n"] by simp

lemma toNumber_scaled:
  assumes m: "m < 2 ^ 53" and x: "m * 2 ^ e < 2 ^ 1024"
  shows "toNumber (m * 2 ^ e) = Fin (m * 2 ^ e)"
proof (cases "bitlen (m * 2 ^ e) \<le> 53")
  case True
  then show ?thesis by (simp add: toNumber_def)
next
  case False
  define k where "k = bitlen (m * 2 ^ e) - 53"
  from False have k: "0 < k" by (simp add: k_def)
  have "m * 2 ^ e < 2 ^ 53 * 2 ^ e" using m by (intro mult_less_mono1) simp_all
  then have "m * 2 ^ e < 2 ^ (53 + e)" by (simp only: power_add)
  then have "bitlen (m * 2 ^ e) \<le> 53 + e" by (simp only: bitlen_le_iff)
  then have "k \<le> e" by (simp add: k_def)
  then obtain d where e: "e = d + k" by (metis le_add_diff_inverse2)
  have p: "m * 2 ^ e = (m * 2 ^ d) * 2 ^ k" by (simp add: e power_add)
  have r: "m * 2 ^ e mod 2 ^ k = 0" "m * 2 ^ e div 2 ^ k = m * 2 ^ d" unfolding p by simp_all
  have h: "(0::nat) < 2 ^ (k - 1)" by simp
  have "toNumber (m * 2 ^ e) =
          (if 2 ^ 1024 \<le> m * 2 ^ d * 2 ^ k then Infinity else Fin (m * 2 ^ d * 2 ^ k))"
    using False h unfolding toNumber_def Let_def k_def [symmetric] r
    by (simp only: if_False) simp
  with x show ?thesis unfolding p by (simp only: not_le [symmetric] if_False)
qed

lemma toNumber_double:
  assumes "toNumber n = Fin v"
  shows "isDouble v"
proof (cases "bitlen n \<le> 53")
  case True
  with assms have "v = n" by (simp add: toNumber_def)
  with assms show ?thesis by (simp add: isDouble_def)
next
  case False
  define e where "e = bitlen n - 53"
  define q where "q = n div 2 ^ e"
  define m where "m = (if 2 ^ (e - 1) < n mod 2 ^ e \<or> (n mod 2 ^ e = 2 ^ (e - 1) \<and> odd q) then q + 1 else q)"
  from False have "toNumber n = (if 2 ^ 1024 \<le> m * 2 ^ e then Infinity else Fin (m * 2 ^ e))"
    unfolding m_def q_def e_def by (simp only: toNumber_def Let_def if_False)
  with assms have v: "v = m * 2 ^ e" and small: "m * 2 ^ e < 2 ^ 1024"
    by (auto split: if_splits)
  have "bitlen n = 53 + e" using False by (simp add: e_def)
  with bitlen_upper [of n] have "n < 2 ^ 53 * 2 ^ e" by (simp only: power_add)
  then have "q < 2 ^ 53" unfolding q_def by (simp only: less_mult_imp_div_less)
  moreover have "m \<le> q + 1" by (simp add: m_def)
  ultimately have "m < 2 ^ 53 \<or> m = 2 ^ 53" by auto
  then have "toNumber (m * 2 ^ e) = Fin (m * 2 ^ e)"
  proof
    assume "m < 2 ^ 53"
    then show ?thesis using small by (rule toNumber_scaled)
  next
    assume top: "m = 2 ^ 53"
    have eq: "m * 2 ^ e = 2 ^ 52 * 2 ^ Suc e" by (simp add: top)
    have "toNumber (2 ^ 52 * 2 ^ Suc e) = Fin (2 ^ 52 * 2 ^ Suc e)"
      by (rule toNumber_scaled) (use small eq in simp_all)
    then show ?thesis by (simp only: eq)
  qed
  then show ?thesis by (simp add: isDouble_def v)
qed

lemma parseInt_double: "parseInt s = Fin v \<Longrightarrow> isDouble v"
  by (auto simp: parseInt_def Let_def split: if_splits intro: toNumber_double)

section \<open>The journal\<close>

lemma handleActivityComplete_eq:
  "handleActivityComplete J rid now record w =
     (saveImpact J (fullRecord record rid now # impactRecords w) w)\<lparr>appScreen := JOURNAL\<rparr>"
  by (simp add: handleActivityComplete_def)

lemma stored_journal:
  "localStorage (saveImpact platformJSON rs w) storageKey = Some (JSON_stringify rs)"
  "localStorage (handleActivityComplete platformJSON rid now record w) =
     localStorage (saveImpact platformJSON (fullRecord record rid now # impactRecords w) w)"
  by (simp_all add: handleActivityComplete_def saveImpact_def platformJSON_def)

lemma loadEffect_written:
  assumes "st storageKey = Some (JSON_stringify rs)"
  shows "loadEffect platformJSON (startApp st) =
           (case asJournal (journalJson rs) of
              Some records \<Rightarrow> Loaded ((startApp st)\<lparr>impactRecords := records\<rparr>)
            | None \<Rightarrow> Opaque (journalJson rs))"
  using assms
  by (cases "asJournal (journalJson rs)")
     (simp_all add: loadEffect_def startApp_def platformJSON_def JSON_roundtrip JSON_stringify_nonempty)

lemma loadEffect_saved:
  assumes "list_all storable rs"
  shows "loadEffect platformJSON (startApp (localStorage (saveImpact platformJSON rs w))) =
           Loaded ((startApp (localStorage (saveImpact platformJSON rs w)))\<lparr>impactRecords := rs\<rparr>)"
proof -
  from assms have "asJournal (journalJson rs) = Some rs"
    by (intro asJournal_journalJson) (simp add: list_all_iff)
  then show ?thesis
    by (simp add: loadEffect_written [of "localStorage (saveImpact platformJSON rs w)" rs, OF stored_journal(1)])
qed

lemma loadEffect_unstorable:
  assumes "r \<in> set rs" "durationMinutes r = Infinity \<or> durationMinutes r = NaN"
  shows "loadEffect platformJSON (startApp (localStorage (saveImpact platformJSON rs w))) =
           Opaque (journalJson rs)"
proof -
  from assms have "asJournal (journalJson rs) = None" by (rule asJournal_unstorable)
  then show ?thesis
    by (simp add: loadEffect_written [of "localStorage (saveImpact platformJSON rs w)" rs, OF stored_journal(1)])
qed

lemma loadEffect_absent:
  assumes "st storageKey = None \<or> st storageKey = Some []"
  shows "loadEffect J (startApp st) = Loaded (startApp st)"
  using assms by (auto simp: loadEffect_def startApp_def)

lemma loadEffect_corrupt:
  assumes "st storageKey = Some s" "s \<noteq> []" "parse J s = Inl e"
  shows "loadEffect J (startApp st) =
           Loaded ((startApp st)\<lparr>console := [(js ''Failed to load impact data'', e)]\<rparr>)"
  using assms by (simp add: loadEffect_def startApp_def)

lemma JSON_parse_open_brace: "JSON_parse (js ''{bad'') = Inl SyntaxError"
proof -
  have "parseValue (Suc (Suc f)) (js ''{bad'') = Failed" for f
    by (simp add: js_def skipWs_def isJsonWs_def mapParsed_def)
  moreover have "Suc (2 * length (js ''{bad'')) = Suc (Suc 7)" by (simp add: js_def)
  moreover have "skipWs (js ''{bad'') = js ''{bad''" by (simp add: js_def skipWs_def isJsonWs_def)
  ultimately show ?thesis by (simp only: JSON_parse_def reading.case)
qed

lemma storable_exampleRecord: "storable exampleRecord"
  by (simp add: storable_def exampleRecord_def isDouble_small)

text \<open>
  The records that the application makes are storable as soon as the duration read from
  the card is finite: \<open>parseInt\<close> returns a double, and so does \<open>Date.now()\<close>,
  whose results are integers below \<open>2^53\<close> in absolute value.
\<close>

lemma finishMission_double:
  assumes "durationMinutes (fst (finishMission c)) = Fin v"
  shows "isDouble v"
proof (cases "matchDigits (pick (displayLanguage c) (duration (activity c)))")
  case None
  with assms have "v = 15" by (simp add: finishMission_duration)
  then show ?thesis by (simp add: isDouble_small)
next
  case (Some m)
  with assms have "parseInt m = Fin v" by (simp add: finishMission_duration)
  then show ?thesis by (rule parseInt_double)
qed

lemma finishMission_storable:
  assumes "durationMinutes (fst (finishMission c)) = Fin v" "\<bar>now\<bar> \<le> 2 ^ 53"
  shows "storable (fullRecord (fst (finishMission c)) rid now)"
proof -
  from assms(2) have "nat \<bar>now\<bar> \<le> 2 ^ 53" by (simp add: nat_le_iff)
  then have "isDouble (nat \<bar>now\<bar>)" by (rule isDouble_small)
  with assms(1) finishMission_double [OF assms(1)] show ?thesis
    by (simp add: storable_def fullRecord_def)
qed

lemma mission_reloaded:
  assumes "durationMinutes (fst (finishMission c)) = Fin v" "\<bar>now\<bar> \<le> 2 ^ 53"
    "list_all storable (impactRecords w)"
  shows "loadEffect platformJSON (startApp (localStorage
           (handleActivityComplete platformJSON rid now (fst (finishMission c)) w))) =
         Loaded ((startApp (localStorage
           (handleActivityComplete platformJSON rid now (fst (finishMission c)) w)))
             \<lparr>impactRecords := fullRecord (fst (finishMission c)) rid now # impactRecords w\<rparr>)"
proof -
  from assms have "list_all storable (fullRecord (fst (finishMission c)) rid now # impactRecords w)"
    by (simp add: finishMission_storable)
  then show ?thesis unfolding stored_journal(2) by (rule loadEffect_saved)
qed

text \<open>
  Claim C7, amended. For every list of storable records, that is of records whose
  duration is a finite number, loading after \<open>saveImpact\<close> on the platform gives exactly
  the saved list, in its order; so after a completed mission a restart loads the new record
  followed by the records held before. With no stored value, or an empty one, or one that
  \<open>JSON.parse\<close> rejects, whatever the \<open>JSON\<close> object, the effect ends normally with the
  empty journal and no error shown; the rejection is written to the console only.
\<close>

theorem journal_roundtrip:
  "(list_all storable rs \<longrightarrow>
      (\<exists>w'. loadEffect platformJSON (startApp (localStorage (saveImpact platformJSON rs w))) = Loaded w' \<and>
            impactRecords w' = rs \<and> console w' = [])) \<and>
   (list_all storable (fullRecord record rid now # impactRecords w) \<longrightarrow>
      impactRecords (handleActivityComplete platformJSON rid now record w) =
        fullRecord record rid now # impactRecords w \<and>
      (\<exists>w'. loadEffect platformJSON
               (startApp (localStorage (handleActivityComplete platformJSON rid now record w))) = Loaded w' \<and>
            impactRecords w' = fullRecord record rid now # impactRecords w)) \<and>
   (st storageKey = None \<or> st storageKey = Some [] \<longrightarrow>
      loadEffect J (startApp st) = Loaded (startApp st) \<and> impactRecords (startApp st) = []) \<and>
   (st storageKey = Some s \<and> parse J s = Inl e \<longrightarrow>
      (\<exists>w'. loadEffect J (startApp st) = Loaded w' \<and> impactRecords w' = [] \<and> error w' = None \<and>
            appScreen w' = WELCOME \<and>
            console w' = (if s = [] then [] else [(js ''Failed to load impact data'', e)])))"
proof (intro conjI impI)
  assume "list_all storable rs"
  then show "\<exists>w'. loadEffect platformJSON (startApp (localStorage (saveImpact platformJSON rs w))) = Loaded w' \<and>
            impactRecords w' = rs \<and> console w' = []"
    by (simp add: loadEffect_saved) (simp add: startApp_def)
next
  let ?rs = "fullRecord record rid now # impactRecords w"
  assume a: "list_all storable ?rs"
  show "impactRecords (handleActivityComplete platformJSON rid now record w) = ?rs"
    by (simp add: handleActivityComplete_eq saveImpact_def)
  from a show "\<exists>w'. loadEffect platformJSON
               (startApp (localStorage (handleActivityComplete platformJSON rid now record w))) = Loaded w' \<and>
            impactRecords w' = ?rs"
    unfolding stored_journal(2) by (simp only: loadEffect_saved) simp
next
  assume "st storageKey = None \<or> st storageKey = Some []"
  then show "loadEffect J (startApp st) = Loaded (startApp st)" by (rule loadEffect_absent)
next
  show "impactRecords (startApp st) = []" by (simp add: startApp_def)
next
  assume a: "st storageKey = Some s \<and> parse J s = Inl e"
  show "\<exists>w'. loadEffect J (startApp st) = Loaded w' \<and> impactRecords w' = [] \<and> error w' = None \<and>
            appScreen w' = WELCOME \<and>
            console w' = (if s = [] then [] else [(js ''Failed to load impact data'', e)])"
  proof (cases "s = []")
    case True
    with a have "loadEffect J (startApp st) = Loaded (startApp st)" by (simp add: loadEffect_absent)
    with True show ?thesis by (simp add: startApp_def)
  next
    case False
    with a have "loadEffect J (startApp st) =
           Loaded ((startApp st)\<lparr>console := [(js ''Failed to load impact data'', e)]\<rparr>)"
      by (simp add: loadEffect_corrupt)
    with False show ?thesis by (simp add: startApp_def)
  qed
qed

theorem journal_roundtrip_witness:
  "list_all storable [exampleRecord] \<and>
   fullRecord \<lparr>activityTitle = js ''Leaf hunt'', rec_topic = js ''Botany'', photoUrl = None,
              durationMinutes = Fin 45\<rparr> (js ''k3x9'') 1700000000000 = exampleRecord \<and>
   is_Loaded (loadEffect platformJSON (startApp (localStorage
            (handleActivityComplete platformJSON (js ''k3x9'') 1700000000000
               \<lparr>activityTitle = js ''Leaf hunt'', rec_topic = js ''Botany'', photoUrl = None,
                durationMinutes = Fin 45\<rparr> (startApp Map.empty))))) \<and>
   impactRecords (loaded (loadEffect platformJSON (startApp (localStorage
            (handleActivityComplete platformJSON (js ''k3x9'') 1700000000000
               \<lparr>activityTitle = js ''Leaf hunt'', rec_topic = js ''Botany'', photoUrl = None,
                durationMinutes = Fin 45\<rparr> (startApp Map.empty)))))) = [exampleRecord] \<and>
   loadEffect platformJSON (startApp Map.empty) = Loaded (startApp Map.empty) \<and>
   parse platformJSON (js ''{bad'') = Inl SyntaxError \<and>
   is_Loaded (loadEffect platformJSON (startApp [storageKey \<mapsto> js ''{bad''])) \<and>
   impactRecords (loaded (loadEffect platformJSON (startApp [storageKey \<mapsto> js ''{bad'']))) = [] \<and>
   console (loaded (loadEffect platformJSON (startApp [storageKey \<mapsto> js ''{bad'']))) =
     [(js ''Failed to load impact data'', SyntaxError)]"
proof -
  let ?r = "\<lparr>activityTitle = js ''Leaf hunt'', rec_topic = js ''Botany'', photoUrl = None,
              durationMinutes = Fin 45\<rparr>"
  have n: "fullRecord ?r (js ''k3x9'') 1700000000000 = exampleRecord"
    by (simp add: fullRecord_def exampleRecord_def)
  have i: "impactRecords (startApp Map.empty) = []" by (simp add: startApp_def)
  have c: "list_all storable [exampleRecord]" by (simp add: storable_exampleRecord)
  have e: "parse platformJSON (js ''{bad'') = Inl SyntaxError"
    by (simp add: platformJSON_def JSON_parse_open_brace)
  have b: "js ''{bad'' \<noteq> []" by (simp add: js_def)
  note t = journal_roundtrip [of "[exampleRecord]" "startApp Map.empty" ?r "js ''k3x9''"
      1700000000000 "[storageKey \<mapsto> js ''{bad'']" platformJSON "js ''{bad''" SyntaxError]
  from t c obtain w1 where w1: "loadEffect platformJSON (startApp (localStorage
            (handleActivityComplete platformJSON (js ''k3x9'') 1700000000000 ?r (startApp Map.empty)))) = Loaded w1"
      "impactRecords w1 = [exampleRecord]" unfolding n i by blast
  from t e obtain w2 where w2: "loadEffect platformJSON (startApp [storageKey \<mapsto> js ''{bad'']) = Loaded w2"
      "impactRecords w2 = []"
      "console w2 = (if js ''{bad'' = [] then [] else [(js ''Failed to load impact data'', SyntaxError)])"
    by auto
  from journal_roundtrip [of "[exampleRecord]" "startApp Map.empty" ?r "js ''k3x9''"
      1700000000000 "Map.empty" platformJSON "js ''{bad''" SyntaxError]
  have a: "loadEffect platformJSON (startApp Map.empty) = Loaded (startApp Map.empty)" by simp
  from c n e w1 w2 a b show ?thesis by simp
qed

lemma longDuration_value: "parseInt longDuration = Infinity"
proof -
  have d: "longDuration \<noteq> []" "\<forall>ch \<in> set longDuration. isDigit ch"
    by (auto simp: longDuration_def isDigit_def)
  have "digitsValue ([0x31] @ replicate 309 0x30) = digitsValue [0x31] * 10 ^ 309"
    by (rule digitsValue_pad)
  then have "digitsValue longDuration = 10 ^ 309"
    by (simp add: longDuration_def digitsValue_def digitVal_def)
  moreover have "(2::nat) ^ 1024 \<le> 10 ^ 309" by simp
  ultimately have "toNumber (digitsValue longDuration) = Infinity"
    by (simp only: toNumber_overflow)
  with parseInt_digits [OF d] show ?thesis by simp
qed

lemma longCard_record:
  "fst (finishMission longCard) =
     \<lparr>activityTitle = js ''Leaf hunt'', rec_topic = js ''Botany'', photoUrl = None,
      durationMinutes = Infinity\<rparr>"
proof -
  have "matchDigits ([] @ longDuration @ []) = Some longDuration"
    by (rule matchDigits_run) (auto simp: longDuration_def isDigit_def)
  then have m: "matchDigits longDuration = Some longDuration" by simp
  have "durationMinutes (fst (finishMission longCard)) = Infinity"
    unfolding longCard_def
    by (simp only: finishMission_duration example_duration m option.case longDuration_value)
  moreover have "activityTitle (fst (finishMission longCard)) = js ''Leaf hunt''"
    "rec_topic (fst (finishMission longCard)) = js ''Botany''"
    "photoUrl (fst (finishMission longCard)) = None"
    by (simp_all add: finishMission_def Let_def longCard_def mount_def initCompletedSteps_def
          exampleActivity_def both_def pick_def)
  ultimately show ?thesis by (cases "fst (finishMission longCard)") simp
qed

text \<open>
  Claim C7 as stated fails for a record whose duration is not finite, and the card
  produces one from a duration text with a long run of digits: a one followed by 309
  zeros is read as \<open>Infinity\<close>, which \<open>JSON.stringify\<close> writes as \<open>null\<close>. After a
  restart the journal holds an object whose \<open>durationMinutes\<close> is \<open>null\<close>, not the
  record that was saved.
\<close>

theorem overflow_counterexample:
  "fullRecord (fst (finishMission longCard)) (js ''k3x9'') 1700000000000 =
     \<lparr>activityTitle = js ''Leaf hunt'', rec_topic = js ''Botany'', photoUrl = None,
      durationMinutes = Infinity, rec_id = js ''k3x9'', timestamp = 1700000000000\<rparr> \<and>
   impactRecords (handleActivityComplete platformJSON (js ''k3x9'') 1700000000000
       (fst (finishMission longCard)) (startApp Map.empty)) =
     [fullRecord (fst (finishMission longCard)) (js ''k3x9'') 1700000000000] \<and>
   loadEffect platformJSON (startApp (localStorage
       (handleActivityComplete platformJSON (js ''k3x9'') 1700000000000
          (fst (finishMission longCard)) (startApp Map.empty)))) =
     Opaque (JArray [JObject
       [(js ''activityTitle'', JString (js ''Leaf hunt'')),
        (js ''topic'', JString (js ''Botany'')),
        (js ''photoUrl'', JNull),
        (js ''durationMinutes'', JNull),
        (js ''id'', JString (js ''k3x9'')),
        (js ''timestamp'', JNumber False 1700000000000 0)]]) \<and>
   \<not> is_Loaded (loadEffect platformJSON (startApp (localStorage
       (handleActivityComplete platformJSON (js ''k3x9'') 1700000000000
          (fst (finishMission longCard)) (startApp Map.empty)))))"
proof -
  let ?r = "fullRecord (fst (finishMission longCard)) (js ''k3x9'') 1700000000000"
  have r: "?r = \<lparr>activityTitle = js ''Leaf hunt'', rec_topic = js ''Botany'', photoUrl = None,
      durationMinutes = Infinity, rec_id = js ''k3x9'', timestamp = 1700000000000\<rparr>"
    by (simp add: fullRecord_def longCard_record)
  have i: "impactRecords (handleActivityComplete platformJSON (js ''k3x9'') 1700000000000
       (fst (finishMission longCard)) (startApp Map.empty)) = [?r]"
    by (simp add: handleActivityComplete_eq saveImpact_def startApp_def)
  have s: "localStorage (handleActivityComplete platformJSON (js ''k3x9'') 1700000000000
       (fst (finishMission longCard)) (startApp Map.empty)) =
     localStorage (saveImpact platformJSON [?r] (startApp Map.empty))"
    by (simp add: stored_journal(2) startApp_def)
  have "durationMinutes ?r = Infinity \<or> durationMinutes ?r = NaN" by (simp add: r)
  then have l: "loadEffect platformJSON (startApp (localStorage (saveImpact platformJSON [?r] (startApp Map.empty)))) =
      Opaque (journalJson [?r])"
    by (intro loadEffect_unstorable [of ?r]) simp_all
  have t: "literalValue 1700000000000 = 1700000000000" by (rule literalValue_small) simp
  have j: "journalJson [?r] = JArray [JObject
       [(js ''activityTitle'', JString (js ''Leaf hunt'')),
        (js ''topic'', JString (js ''Botany'')),
        (js ''photoUrl'', JNull),
        (js ''durationMinutes'', JNull),
        (js ''id'', JString (js ''k3x9'')),
        (js ''timestamp'', JNumber False 1700000000000 0)]]"
    unfolding r by (simp add: journalJson_def recordJson_def photoJson_def numberJson_def intJson_def t)
  from r i show ?thesis unfolding s l j by simp
qed

text \<open>
  Claim C8. Whatever the screen, \<open>reset\<close> shows the welcome screen and clears the
  activities, the topics, the study session, the status and the error; the records in
  memory and the store are as before.
\<close>

theorem reset_frame:
  "appScreen (reset w) = WELCOME \<and> activities (reset w) = [] \<and> overallTopics (reset w) = [] \<and>
   studySession (reset w) = None \<and> status (reset w) = IDLE \<and> error (reset w) = None \<and>
   impactRecords (reset w) = impactRecords w \<and> localStorage (reset w) = localStorage w"
  by (simp add: reset_def)

section \<open>Study materials\<close>

lemma startsWith_iff: "startsWith s p \<longleftrightarrow> (\<exists>b. s = p @ b)"
  unfolding startsWith_def
  by (metis append_eq_conv_conj append_take_drop_id)

lemma js_includes_iff: "js_includes s p \<longleftrightarrow> (\<exists>a b. s = a @ p @ b)"
proof (induction s)
  case Nil
  show ?case by auto
next
  case (Cons c cs)
  show ?case
  proof
    assume "js_includes (c # cs) p"
    then consider "startsWith (c # cs) p" | "js_includes cs p" by auto
    then show "\<exists>a b. c # cs = a @ p @ b"
    proof cases
      case 1
      then obtain b where "c # cs = p @ b" by (auto simp: startsWith_iff)
      then have "c # cs = [] @ p @ b" by simp
      then show ?thesis by blast
    next
      case 2
      with Cons obtain a b where "cs = a @ p @ b" by auto
      then have "c # cs = (c # a) @ p @ b" by simp
      then show ?thesis by blast
    qed
  next
    assume "\<exists>a b. c # cs = a @ p @ b"
    then obtain a b where ab: "c # cs = a @ p @ b" by blast
    show "js_includes (c # cs) p"
    proof (cases a)
      case Nil
      with ab have "startsWith (c # cs) p" by (auto simp: startsWith_iff)
      then show ?thesis by simp
    next
      case (Cons x a')
      with ab have "cs = a' @ p @ b" by simp
      with Cons.IH have "js_includes cs p" by blast
      then show ?thesis by simp
    qed
  qed
qed

lemma pushed_type:
  "m \<in> set (pushed chunk) \<Longrightarrow>
     (mat_type m = Video \<longleftrightarrow> isVideo (mat_url m)) \<and>
     (mat_type m = Audio \<longleftrightarrow> \<not> isVideo (mat_url m) \<and> isAudio (mat_url m))"
  by (auto simp: pushed_def Let_def split: option.splits if_splits)

text \<open>
  Claim C10. The session returned for any answer of the service has at most 10
  materials; a material is a video exactly when its URL matches the video keywords, an
  audio exactly when it matches the audio keywords and not the video ones, and it matches
  one of the two; every line of the summary has more than 20 code units and does not
  contain "http".
\<close>

theorem getStudyMaterials_post:
  "length (study_materials (getStudyMaterials response)) \<le> 10 \<and>
   (\<forall>m \<in> set (study_materials (getStudyMaterials response)).
      (mat_type m = Video \<longleftrightarrow> isVideo (mat_url m)) \<and>
      (mat_type m = Audio \<longleftrightarrow> \<not> isVideo (mat_url m) \<and> isAudio (mat_url m)) \<and>
      (isVideo (mat_url m) \<or> isAudio (mat_url m))) \<and>
   (\<forall>line \<in> set (summary (getStudyMaterials response)).
      20 < length line \<and> \<not> (\<exists>a b. line = a @ js ''http'' @ b))"
proof (intro conjI ballI)
  show "length (study_materials (getStudyMaterials response)) \<le> 10"
    by (simp add: getStudyMaterials_def Let_def)
next
  fix m assume "m \<in> set (study_materials (getStudyMaterials response))"
  then have "m \<in> set (concat (map pushed (case groundingChunks response of None \<Rightarrow> [] | Some cs \<Rightarrow> cs)))"
    by (auto simp: getStudyMaterials_def Let_def dest: in_set_takeD)
  then obtain chunk where "m \<in> set (pushed chunk)" by auto
  then have t: "(mat_type m = Video \<longleftrightarrow> isVideo (mat_url m)) \<and>
     (mat_type m = Audio \<longleftrightarrow> \<not> isVideo (mat_url m) \<and> isAudio (mat_url m))" by (rule pushed_type)
  then show "mat_type m = Video \<longleftrightarrow> isVideo (mat_url m)"
    and "mat_type m = Audio \<longleftrightarrow> \<not> isVideo (mat_url m) \<and> isAudio (mat_url m)" by simp_all
  from t show "isVideo (mat_url m) \<or> isAudio (mat_url m)" by (cases "mat_type m") simp_all
next
  fix line assume "line \<in> set (summary (getStudyMaterials response))"
  then have "20 < length line \<and> \<not> js_includes line (js ''http'')"
    by (simp add: getStudyMaterials_def Let_def)
  then show "20 < length line" and "\<not> (\<exists>a b. line = a @ js ''http'' @ b)"
    by (simp_all add: js_includes_iff)
qed

theorem getStudyMaterials_post_witness:
  "study_materials (getStudyMaterials
      \<lparr>response_text = Some (js ''1. Plants turn light into sugar'' @ [0x0A] @
                              js ''* see http://example.org/photosynthesis'' @ [0x0A] @ js ''short''),
       groundingChunks = Some [Some \<lparr>uri = Some (js ''https://youtube.com/audio''), web_title = None\<rparr>,
                               None,
                               Some \<lparr>uri = Some (js ''https://example.org''), web_title = Some (js ''Home'')\<rparr>,
                               Some \<lparr>uri = Some (js ''https://spotify.com/1''), web_title = Some (js ''Pod'')\<rparr>]\<rparr>) =
     [\<lparr>mat_title = js ''TeachWell Resource'', mat_url = Some (js ''https://youtube.com/audio''), mat_type = Video\<rparr>,
      \<lparr>mat_title = js ''Pod'', mat_url = Some (js ''https://spotify.com/1''), mat_type = Audio\<rparr>] \<and>
   summary (getStudyMaterials
      \<lparr>response_text = Some (js ''1. Plants turn light into sugar'' @ [0x0A] @
                              js ''* see http://example.org/photosynthesis'' @ [0x0A] @ js ''short''),
       groundingChunks = Some [Some \<lparr>uri = Some (js ''https://youtube.com/audio''), web_title = None\<rparr>,
                               None,
                               Some \<lparr>uri = Some (js ''https://example.org''), web_title = Some (js ''Home'')\<rparr>,
                               Some \<lparr>uri = Some (js ''https://spotify.com/1''), web_title = Some (js ''Pod'')\<rparr>]\<rparr>) =
     [js ''Plants turn light into sugar''] \<and>
   isVideo (Some (js ''https://youtube.com/audio'')) \<and>
   \<not> isVideo (Some (js ''https://spotify.com/1'')) \<and> isAudio (Some (js ''https://spotify.com/1'')) \<and>
   20 < length (js ''Plants turn light into sugar'')"
proof -
  let ?r = "\<lparr>response_text = Some (js ''1. Plants turn light into sugar'' @ [0x0A] @
                              js ''* see http://example.org/photosynthesis'' @ [0x0A] @ js ''short''),
       groundingChunks = Some [Some \<lparr>uri = Some (js ''https://youtube.com/audio''), web_title = None\<rparr>,
                               None,
                               Some \<lparr>uri = Some (js ''https://example.org''), web_title = Some (js ''Home'')\<rparr>,
                               Some \<lparr>uri = Some (js ''https://spotify.com/1''), web_title = Some (js ''Pod'')\<rparr>]\<rparr>"
  have m: "study_materials (getStudyMaterials ?r) =
     [\<lparr>mat_title = js ''TeachWell Resource'', mat_url = Some (js ''https://youtube.com/audio''), mat_type = Video\<rparr>,
      \<lparr>mat_title = js ''Pod'', mat_url = Some (js ''https://spotify.com/1''), mat_type = Audio\<rparr>]"
    by (simp add: getStudyMaterials_def pushed_def isVideo_def isAudio_def regexTest_def
          truthyStr_def startsWith_def js_def Let_def)
  have s: "summary (getStudyMaterials ?r) = [js ''Plants turn light into sugar'']"
    by (simp add: getStudyMaterials_def truthyStr_def trim_def removeMarks_def removeNumbering_def
          isDigit_def isSpace_def startsWith_def js_def Let_def)
  from getStudyMaterials_post [of ?r] have
    "\<forall>m \<in> set (study_materials (getStudyMaterials ?r)).
      (mat_type m = Video \<longleftrightarrow> isVideo (mat_url m)) \<and>
      (mat_type m = Audio \<longleftrightarrow> \<not> isVideo (mat_url m) \<and> isAudio (mat_url m)) \<and>
      (isVideo (mat_url m) \<or> isAudio (mat_url m))"
    and "\<forall>line \<in> set (summary (getStudyMaterials ?r)). 20 < length line \<and> \<not> (\<exists>a b. line = a @ js ''http'' @ b)"
    by blast+
  then have "isVideo (Some (js ''https://youtube.com/audio''))"
    "\<not> isVideo (Some (js ''https://spotify.com/1'')) \<and> isAudio (Some (js ''https://spotify.com/1''))"
    "20 < length (js ''Plants turn light into sugar'')"
    unfolding m s by simp_all
  with m s show ?thesis by blast
qed

end
